theory Spec2Isabelle
  imports Main "HOL-Library.Word"
begin

section \<open>Masstree pages of FOEDUS: data model\<close>

text \<open>
  The development follows \<^verbatim>\<open>masstree_page_impl.hpp\<close>. Fixed-width integers are
  words. A C array \<^verbatim>\<open>T a[N]\<close> is a function from the cell number to the cell; only
  the cells below \<^verbatim>\<open>N\<close> exist, and every access the source makes at a cell that does
  not exist is the error \<open>OutOfBounds\<close> of the model. \<^verbatim>\<open>ASSERT_ND(c)\<close> is the assertion
  of the debug build, which stops the program when \<^verbatim>\<open>c\<close> is false: the model follows
  the debug build, and a failed assertion is the error \<open>AssertFailed\<close>.
  Loop counters and arguments of type \<^verbatim>\<open>uint8_t\<close> that are only used as cell numbers
  are natural numbers: every loop below increments its counter only while it is
  smaller than a \<^verbatim>\<open>uint8_t\<close> bound, so the counter never wraps. Prefetching has no
  effect on the state and is left out.
\<close>

type_synonym KeySlice = "64 word"
type_synonym XctId = "64 word"
type_synonym DataOffset = "8 word"
type_synonym bytes = "8 word list"

datatype error = AssertFailed | OutOfBounds

text \<open>Only the field \<^verbatim>\<open>snapshot_\<close> of \<^verbatim>\<open>PageHeader\<close> is read by the page code.\<close>

record PageHeader =
  snapshot :: bool

text \<open>
  Modelled from the spec: \<^verbatim>\<open>masstree_page_version.hpp\<close> is not among the sources.
  The fields are those of the version word of section 4.1 of the specification.
\<close>

record MasstreePageVersion =
  locked :: bool
  inserting :: bool
  splitting :: bool
  deleted :: bool
  has_foster :: bool
  is_root :: bool
  layer :: nat
  key_count :: nat
  vsplit :: nat

definition get_key_count :: "MasstreePageVersion \<Rightarrow> nat" where
  "get_key_count v = key_count v"

definition is_locked :: "MasstreePageVersion \<Rightarrow> bool" where
  "is_locked v = locked v"

definition is_inserting :: "MasstreePageVersion \<Rightarrow> bool" where
  "is_inserting v = inserting v"

text \<open>
  Modelled from the spec: \<^verbatim>\<open>lock_version\<close> spins until the lock bit goes from 0 to 1.
  In a sequential run a word that is already locked is never released, so the call
  does not return: that is \<open>None\<close>.
\<close>

definition lock_version :: "MasstreePageVersion \<Rightarrow> MasstreePageVersion option" where
  "lock_version v = (if locked v then None else Some (v\<lparr>locked := True\<rparr>))"

text \<open>
  Modelled from the spec: \<^verbatim>\<open>unlock_version\<close> clears inserting, splitting and locked,
  and bumps the split counter iff splitting was set.
\<close>

definition unlock_version :: "MasstreePageVersion \<Rightarrow> MasstreePageVersion" where
  "unlock_version v =
     v\<lparr>locked := False, inserting := False, splitting := False,
       vsplit := (if splitting v then vsplit v + 1 else vsplit v)\<rparr>"

text \<open>The common base of both page kinds (\<^verbatim>\<open>class MasstreePage\<close>).\<close>

record MasstreePage =
  header :: PageHeader
  low_fence :: KeySlice
  high_fence :: KeySlice
  in_layer_parent :: "64 word"
  page_version :: MasstreePageVersion

definition get_low_fence :: "'a MasstreePage_scheme \<Rightarrow> KeySlice" where
  "get_low_fence p = low_fence p"

definition get_high_fence :: "'a MasstreePage_scheme \<Rightarrow> KeySlice" where
  "get_high_fence p = high_fence p"

definition lock :: "'a MasstreePage_scheme \<Rightarrow> 'a MasstreePage_scheme option" where
  "lock p =
     (if \<not> snapshot (header p) then
        (case lock_version (page_version p) of
           None \<Rightarrow> None
         | Some v \<Rightarrow> Some (p\<lparr>page_version := v\<rparr>))
      else Some p)"

definition unlock :: "'a MasstreePage_scheme \<Rightarrow> 'a MasstreePage_scheme" where
  "unlock p =
     (if \<not> snapshot (header p) then p\<lparr>page_version := unlock_version (page_version p)\<rparr>
      else p)"

subsection \<open>Intermediate pages\<close>

text \<open>
  The two constants come from \<^verbatim>\<open>masstree_id.hpp\<close>, which is not among the sources;
  their values are those of the layout comments (\<^verbatim>\<open>+8*15\<close>, \<^verbatim>\<open>+72\<close>) and of the
  specification.
\<close>

definition kMaxIntermediateSeparators :: nat where
  "kMaxIntermediateSeparators = 9"

definition kMaxIntermediateMiniSeparators :: nat where
  "kMaxIntermediateMiniSeparators = 15"

type_synonym DualPagePointer = "64 word \<times> 64 word"

record MiniPage =
  mini_version :: MasstreePageVersion
  mini_separators :: "nat \<Rightarrow> KeySlice"
  pointers :: "nat \<Rightarrow> DualPagePointer"

record MasstreeIntermediatePage = MasstreePage +
  separators :: "nat \<Rightarrow> KeySlice"
  mini_pages :: "nat \<Rightarrow> MiniPage"

text \<open>
  The loop \<^verbatim>\<open>for (uint8_t i = 0; i < separator_count; ++i)\<close> of both search functions,
  from counter \<open>i\<close> on. The assertion before the loop bounds \<open>separator_count\<close> by the
  size of the array, so every cell read exists.
\<close>

function find_separator_loop :: "(nat \<Rightarrow> KeySlice) \<Rightarrow> nat \<Rightarrow> KeySlice \<Rightarrow> nat \<Rightarrow> nat" where
  "find_separator_loop seps separator_count kslice i =
     (if i < separator_count then
        (if kslice < seps i then i
         else find_separator_loop seps separator_count kslice (Suc i))
      else separator_count)"
  by pat_completeness auto
termination
  by (relation "measure (\<lambda>(seps, separator_count, kslice, i). separator_count - i)") auto

declare find_separator_loop.simps [simp del]

text \<open>\<^verbatim>\<open>uint8_t separator_count = stable.get_key_count()\<close> keeps the low 8 bits.\<close>

definition find_pointer :: "MiniPage \<Rightarrow> MasstreePageVersion \<Rightarrow> KeySlice \<Rightarrow> error + nat" where
  "find_pointer m stable_version kslice =
     (let separator_count = get_key_count stable_version mod 256 in
      if \<not> separator_count \<le> kMaxIntermediateMiniSeparators then Inl AssertFailed
      else Inr (find_separator_loop (mini_separators m) separator_count kslice 0))"

definition find_minipage ::
  "MasstreeIntermediatePage \<Rightarrow> MasstreePageVersion \<Rightarrow> KeySlice \<Rightarrow> error + nat" where
  "find_minipage p stable_version kslice =
     (let separator_count = get_key_count stable_version mod 256 in
      if \<not> separator_count \<le> kMaxIntermediateSeparators then Inl AssertFailed
      else Inr (find_separator_loop (separators p) separator_count kslice 0))"

subsection \<open>Border pages\<close>

definition kMaxKeys :: nat where
  "kMaxKeys = 64"

definition kKeyLengthNextLayer :: "8 word" where
  "kKeyLengthNextLayer = 255"

definition kKeyLengthMax :: "8 word" where
  "kKeyLengthMax = 254"

definition kHeaderSize :: nat where
  "kHeaderSize = 1344"

definition kDataSize :: nat where
  "kDataSize = 4096 - kHeaderSize"

definition sizeof_KeySlice :: nat where
  "sizeof_KeySlice = 8"

datatype MatchType =
  kNotFound | kExactMatchLocalRecord | kExactMatchLayerPointer | kConflictingLocalRecord

datatype FindKeyForReserveResult = FindKeyForReserveResult nat MatchType

record MasstreeBorderPage = MasstreePage +
  remaining_key_length :: "nat \<Rightarrow> 8 word"
  slices :: "nat \<Rightarrow> KeySlice"
  offsets :: "nat \<Rightarrow> DataOffset"
  payload_length :: "nat \<Rightarrow> 16 word"
  owner_ids :: "nat \<Rightarrow> XctId"
  data :: "nat \<Rightarrow> 8 word"

text \<open>
  \<^verbatim>\<open>get_record(index)\<close> returns the pointer \<^verbatim>\<open>data_ + (offsets_[index] << 4)\<close>; the model
  returns the position in \<open>data\<close>. The argument is a \<^verbatim>\<open>uint8_t\<close> and \<^verbatim>\<open>offsets_\<close> has
  \<open>kMaxKeys\<close> cells.
\<close>

definition get_record :: "MasstreeBorderPage \<Rightarrow> nat \<Rightarrow> error + nat" where
  "get_record p index =
     (if \<not> index < kMaxKeys then Inl OutOfBounds
      else if \<not> unat (offsets p index) < kDataSize div 16 then Inl AssertFailed
      else Inr (unat (offsets p index) * 16))"

definition does_point_to_layer :: "MasstreeBorderPage \<Rightarrow> nat \<Rightarrow> bool" where
  "does_point_to_layer p index = (remaining_key_length p index = kKeyLengthNextLayer)"

definition get_payload_length :: "MasstreeBorderPage \<Rightarrow> nat \<Rightarrow> 16 word" where
  "get_payload_length p index = payload_length p index"

definition calculate_suffix_length :: "8 word \<Rightarrow> error + 8 word" where
  "calculate_suffix_length remaining_length =
     (if \<not> remaining_length \<noteq> kKeyLengthNextLayer then Inl AssertFailed
      else if unat remaining_length \<ge> sizeof_KeySlice
        then Inr (remaining_length - of_nat sizeof_KeySlice)
      else Inr 0)"

text \<open>
  Modelled from the spec: \<^verbatim>\<open>assorted::align16\<close> is not among the sources. It rounds
  its argument up to the next multiple of 16.
\<close>

definition align16 :: "nat \<Rightarrow> nat" where
  "align16 x = ((x + 15) div 16) * 16"

text \<open>
  The sum \<^verbatim>\<open>suffix_length + payload_count\<close> is computed in \<^verbatim>\<open>int\<close> and cannot
  overflow; the function returns \<^verbatim>\<open>uint16_t\<close>, which keeps the low 16 bits.
\<close>

definition calculate_record_size :: "8 word \<Rightarrow> 16 word \<Rightarrow> error + 16 word" where
  "calculate_record_size remaining_length payload_count =
     (case calculate_suffix_length remaining_length of
        Inl e \<Rightarrow> Inl e
      | Inr suffix_length \<Rightarrow> Inr (of_nat (align16 (unat suffix_length + unat payload_count))))"

definition can_accomodate :: "MasstreeBorderPage \<Rightarrow> nat \<Rightarrow> 8 word \<Rightarrow> 16 word \<Rightarrow> error + bool" where
  "can_accomodate p new_index remaining_length payload_count =
     (if new_index = 0 then
        (if \<not> unat remaining_length + unat payload_count \<le> kDataSize then Inl AssertFailed
         else Inr True)
      else
        (case calculate_record_size remaining_length payload_count of
           Inl e \<Rightarrow> Inl e
         | Inr record_size \<Rightarrow>
             if \<not> new_index - 1 < kMaxKeys then Inl OutOfBounds
             else
               (let last_offset = push_bit 4 (ucast (offsets p (new_index - 1)) :: 16 word)
                in Inr (record_size \<le> last_offset))))"

text \<open>
  \<^verbatim>\<open>std::memcmp(record_suffix, suffix, n) == 0\<close> on \<open>n\<close> bytes of \<open>data\<close> from position
  \<open>pos\<close> and the first \<open>n\<close> bytes of the caller's buffer. Reading past the end of
  \<open>data\<close> or of the buffer is out of bounds.
\<close>

definition memcmp_eq :: "(nat \<Rightarrow> 8 word) \<Rightarrow> nat \<Rightarrow> bytes \<Rightarrow> nat \<Rightarrow> error + bool" where
  "memcmp_eq d pos suffix n =
     (if pos + n \<le> kDataSize \<and> n \<le> length suffix
      then Inr (map (\<lambda>k. d (pos + k)) [0..<n] = take n suffix)
      else Inl OutOfBounds)"

text \<open>\<^verbatim>\<open>std::memcpy(data_ + pos, suffix, n)\<close>.\<close>

definition memcpy :: "(nat \<Rightarrow> 8 word) \<Rightarrow> nat \<Rightarrow> bytes \<Rightarrow> nat \<Rightarrow> error + (nat \<Rightarrow> 8 word)" where
  "memcpy d pos suffix n =
     (if pos + n \<le> kDataSize \<and> n \<le> length suffix
      then Inr (\<lambda>a. if pos \<le> a \<and> a < pos + n then suffix ! (a - pos) else d a)
      else Inl OutOfBounds)"

text \<open>
  The body of a \<^verbatim>\<open>for\<close> loop ends in one of four ways: \<^verbatim>\<open>continue\<close> (or falling
  through to the next round), \<^verbatim>\<open>break\<close>, \<^verbatim>\<open>return\<close>, or a failed assertion or access.
  \<open>for_loop body n after i\<close> runs \<^verbatim>\<open>for (; i < n; ++i) body\<close> and then returns \<open>after\<close>.
\<close>

datatype 'a control = Continue | Break | Return 'a | Abort error

function for_loop :: "(nat \<Rightarrow> 'a control) \<Rightarrow> nat \<Rightarrow> 'a \<Rightarrow> nat \<Rightarrow> error + 'a" where
  "for_loop body n after i =
     (if i < n then
        (case body i of
           Continue \<Rightarrow> for_loop body n after (Suc i)
         | Break \<Rightarrow> Inr after
         | Return r \<Rightarrow> Inr r
         | Abort e \<Rightarrow> Inl e)
      else Inr after)"
  by pat_completeness auto
termination
  by (relation "measure (\<lambda>(body, n, after, i). n - i)") auto

declare for_loop.simps [simp del]

definition find_key_body ::
  "MasstreeBorderPage \<Rightarrow> KeySlice \<Rightarrow> bytes \<Rightarrow> 8 word \<Rightarrow> nat \<Rightarrow> nat control" where
  "find_key_body p kslice suffix remaining i =
     (if kslice \<noteq> slices p i then Continue
      else if unat remaining \<le> sizeof_KeySlice then
        (if remaining_key_length p i = remaining then Return i else Continue)
      else if does_point_to_layer p i then Return i
      else
        (let no_match =
           (if unat (remaining_key_length p i) > sizeof_KeySlice then Break else Continue)
         in
         if remaining_key_length p i = remaining then
           (case get_record p (unat (offsets p i)) of
              Inl e \<Rightarrow> Abort e
            | Inr record_suffix \<Rightarrow>
                (case memcmp_eq (data p) record_suffix suffix (unat remaining - sizeof_KeySlice) of
                   Inl e \<Rightarrow> Abort e
                 | Inr equal \<Rightarrow> if equal then Return i else no_match))
         else no_match))"

definition find_key ::
  "MasstreeBorderPage \<Rightarrow> MasstreePageVersion \<Rightarrow> KeySlice \<Rightarrow> bytes \<Rightarrow> 8 word \<Rightarrow> error + nat" where
  "find_key p stable_version kslice suffix remaining =
     (let key_count = get_key_count stable_version mod 256 in
      if \<not> remaining \<le> kKeyLengthMax then Inl AssertFailed
      else if \<not> key_count \<le> kMaxKeys then Inl AssertFailed
      else for_loop (find_key_body p kslice suffix remaining) key_count kMaxKeys 0)"

definition find_key_normalized_body :: "MasstreeBorderPage \<Rightarrow> KeySlice \<Rightarrow> nat \<Rightarrow> nat control" where
  "find_key_normalized_body p kslice i =
     (if kslice = slices p i \<and> unat (remaining_key_length p i) = sizeof_KeySlice
      then Return i else Continue)"

definition find_key_normalized ::
  "MasstreeBorderPage \<Rightarrow> nat \<Rightarrow> nat \<Rightarrow> KeySlice \<Rightarrow> error + nat" where
  "find_key_normalized p from_index to_index kslice =
     (if \<not> to_index \<le> kMaxKeys then Inl AssertFailed
      else if \<not> from_index \<le> to_index then Inl AssertFailed
      else for_loop (find_key_normalized_body p kslice) to_index kMaxKeys from_index)"

definition find_key_for_reserve_body ::
  "MasstreeBorderPage \<Rightarrow> KeySlice \<Rightarrow> bytes \<Rightarrow> 8 word \<Rightarrow> nat \<Rightarrow> FindKeyForReserveResult control" where
  "find_key_for_reserve_body p kslice suffix remaining i =
     (if kslice \<noteq> slices p i then Continue
      else if unat remaining \<le> sizeof_KeySlice then
        (if remaining_key_length p i = remaining then
           (if \<not> \<not> does_point_to_layer p i then Abort AssertFailed
            else Return (FindKeyForReserveResult i kExactMatchLocalRecord))
         else Continue)
      else if does_point_to_layer p i then Return (FindKeyForReserveResult i kExactMatchLayerPointer)
      else if unat (remaining_key_length p i) \<le> sizeof_KeySlice then Continue
      else
        (case get_record p (unat (offsets p i)) of
           Inl e \<Rightarrow> Abort e
         | Inr record_suffix \<Rightarrow>
             if remaining_key_length p i = remaining then
               (case memcmp_eq (data p) record_suffix suffix (unat remaining - sizeof_KeySlice) of
                  Inl e \<Rightarrow> Abort e
                | Inr equal \<Rightarrow>
                    if equal then Return (FindKeyForReserveResult i kExactMatchLocalRecord)
                    else Return (FindKeyForReserveResult i kConflictingLocalRecord))
             else Return (FindKeyForReserveResult i kConflictingLocalRecord)))"

definition find_key_for_reserve ::
  "MasstreeBorderPage \<Rightarrow> nat \<Rightarrow> nat \<Rightarrow> KeySlice \<Rightarrow> bytes \<Rightarrow> 8 word
     \<Rightarrow> error + FindKeyForReserveResult" where
  "find_key_for_reserve p from_index to_index kslice suffix remaining =
     (if \<not> to_index \<le> kMaxKeys then Inl AssertFailed
      else if \<not> from_index \<le> to_index then Inl AssertFailed
      else if \<not> remaining \<le> kKeyLengthMax then Inl AssertFailed
      else for_loop (find_key_for_reserve_body p kslice suffix remaining) to_index
             (FindKeyForReserveResult kMaxKeys kNotFound) from_index)"

text \<open>
  \<^verbatim>\<open>DataOffset record_size = calculate_record_size(...) >> 4\<close> keeps the low 8 bits of
  the shifted size, and \<^verbatim>\<open>previous_offset - record_size\<close> is stored into a \<^verbatim>\<open>uint8_t\<close>
  cell, so the subtraction is that of 8-bit words.
\<close>

definition reserve_record_space ::
  "MasstreeBorderPage \<Rightarrow> nat \<Rightarrow> XctId \<Rightarrow> KeySlice \<Rightarrow> bytes \<Rightarrow> 8 word \<Rightarrow> 16 word
     \<Rightarrow> error + MasstreeBorderPage" where
  "reserve_record_space p index initial_owner_id kslice suffix remaining_length payload_count =
     (if \<not> remaining_length \<le> kKeyLengthMax then Inl AssertFailed
      else if \<not> is_locked (page_version p) then Inl AssertFailed
      else if \<not> is_inserting (page_version p) then Inl AssertFailed
      else if \<not> get_key_count (page_version p) = index + 1 then Inl AssertFailed
      else
        (case can_accomodate p index remaining_length payload_count of
           Inl e \<Rightarrow> Inl e
         | Inr fits \<Rightarrow>
             if \<not> fits then Inl AssertFailed
             else
               (case calculate_suffix_length remaining_length of
                  Inl e \<Rightarrow> Inl e
                | Inr suffix_length \<Rightarrow>
                    (case calculate_record_size remaining_length payload_count of
                       Inl e \<Rightarrow> Inl e
                     | Inr size16 \<Rightarrow>
                         (let record_size = (ucast (drop_bit 4 size16) :: DataOffset);
                              previous_offset =
                                (if index = 0 then of_nat (kDataSize div 16)
                                 else offsets p (index - 1))
                          in
                          if \<not> index < kMaxKeys then Inl OutOfBounds
                          else
                            (let p' = p\<lparr>slices := (slices p)(index := kslice),
                                   remaining_key_length :=
                                     (remaining_key_length p)(index := remaining_length),
                                   payload_length := (payload_length p)(index := payload_count),
                                   offsets := (offsets p)(index := previous_offset - record_size),
                                   owner_ids := (owner_ids p)(index := initial_owner_id)\<rparr>
                             in
                             if unat suffix_length > 0 then
                               (case get_record p' index of
                                  Inl e \<Rightarrow> Inl e
                                | Inr pos \<Rightarrow>
                                    (case memcpy (data p') pos suffix (unat suffix_length) of
                                       Inl e \<Rightarrow> Inl e
                                     | Inr d \<Rightarrow> Inr (p'\<lparr>data := d\<rparr>)))
                             else Inr p'))))))"

text \<open>
  \<^verbatim>\<open>set_next_layer(index, pointer)\<close>. \<^verbatim>\<open>is_keylocked\<close> belongs to \<^verbatim>\<open>xct_id.hpp\<close>, which is
  not among the sources, and is a parameter. The pointer is given by the 16 bytes of
  its \<^verbatim>\<open>DualPagePointer\<close> (the size is that of the layout comment \<^verbatim>\<open>+16*16\<close>), which the
  assignment \<^verbatim>\<open>*get_next_layer(index) = pointer\<close> copies into the record.
\<close>

definition sizeof_DualPagePointer :: nat where
  "sizeof_DualPagePointer = 16"

definition get_next_layer :: "MasstreeBorderPage \<Rightarrow> nat \<Rightarrow> error + nat" where
  "get_next_layer p index =
     (if \<not> index < kMaxKeys then Inl OutOfBounds
      else if \<not> unat (offsets p index) < kDataSize div 16 then Inl AssertFailed
      else Inr (unat (offsets p index) * 16))"

definition set_next_layer ::
  "(XctId \<Rightarrow> bool) \<Rightarrow> MasstreeBorderPage \<Rightarrow> nat \<Rightarrow> bytes \<Rightarrow> error + MasstreeBorderPage" where
  "set_next_layer is_keylocked p index pointer =
     (if \<not> index < kMaxKeys then Inl OutOfBounds
      else if \<not> is_keylocked (owner_ids p index) then Inl AssertFailed
      else if \<not> unat (remaining_key_length p index) > sizeof_KeySlice then Inl AssertFailed
      else
        (let p' = p\<lparr>remaining_key_length :=
                     (remaining_key_length p)(index := kKeyLengthNextLayer)\<rparr>
         in
         case get_next_layer p' index of
           Inl e \<Rightarrow> Inl e
         | Inr pos \<Rightarrow>
             (case memcpy (data p') pos pointer sizeof_DualPagePointer of
                Inl e \<Rightarrow> Inl e
              | Inr d \<Rightarrow> Inr (p'\<lparr>data := d\<rparr>))))"

subsection \<open>Slots that share a slice\<close>

definition slots_with_slice :: "MasstreeBorderPage \<Rightarrow> nat \<Rightarrow> KeySlice \<Rightarrow> nat list" where
  "slots_with_slice p n s = filter (\<lambda>i. slices p i = s) [0..<n]"

definition long_key_slot :: "MasstreeBorderPage \<Rightarrow> nat \<Rightarrow> bool" where
  "long_key_slot p i = (sizeof_KeySlice < unat (remaining_key_length p i))"

text \<open>
  The invariant as the specification words it: a slot whose remaining length is above
  8 (the next-layer marker 255 included) is the only slot of its slice.
\<close>

definition long_slot_alone :: "MasstreeBorderPage \<Rightarrow> nat \<Rightarrow> bool" where
  "long_slot_alone p n =
     list_all (\<lambda>i. list_all (\<lambda>j. i \<noteq> j \<and> slices p i = slices p j
        \<longrightarrow> \<not> long_key_slot p i \<and> \<not> long_key_slot p j) [0..<n]) [0..<n]"

text \<open>
  The invariant \<^verbatim>\<open>find_key\<close> relies on, from its comments: one slice is used for up to
  10 keys, of length 0 to 8 and one long key or pointer to the next layer. So two
  slots of one slice differ in their remaining length, and at most one of them is
  long.
\<close>

definition slice_invariant :: "MasstreeBorderPage \<Rightarrow> nat \<Rightarrow> bool" where
  "slice_invariant p n =
     list_all (\<lambda>i. list_all (\<lambda>j. i \<noteq> j \<and> slices p i = slices p j
        \<longrightarrow> remaining_key_length p i \<noteq> remaining_key_length p j
            \<and> \<not> (long_key_slot p i \<and> long_key_slot p j)) [0..<n]) [0..<n]"

text \<open>The rounds a \<^verbatim>\<open>for\<close> loop runs: the counter values at which the body is entered.\<close>

function for_loop_rounds :: "(nat \<Rightarrow> 'a control) \<Rightarrow> nat \<Rightarrow> nat \<Rightarrow> nat list" where
  "for_loop_rounds body n i =
     (if i < n then
        (case body i of
           Continue \<Rightarrow> i # for_loop_rounds body n (Suc i)
         | Break \<Rightarrow> [i]
         | Return r \<Rightarrow> [i]
         | Abort e \<Rightarrow> [i])
      else [])"
  by pat_completeness auto
termination
  by (relation "measure (\<lambda>(body, n, i). n - i)") auto

declare for_loop_rounds.simps [simp del]

text \<open>The slots the loop of \<^verbatim>\<open>find_key\<close> examines.\<close>

definition find_key_examined ::
  "MasstreeBorderPage \<Rightarrow> MasstreePageVersion \<Rightarrow> KeySlice \<Rightarrow> bytes \<Rightarrow> 8 word \<Rightarrow> nat list" where
  "find_key_examined p stable_version kslice suffix remaining =
     for_loop_rounds (find_key_body p kslice suffix remaining)
       (get_key_count stable_version mod 256) 0"

subsection \<open>Fences\<close>


text \<open>
  Modelled from the spec: the fence check of section 4.2, which a descent makes
  before it works on the page it has reached.
\<close>

definition within_fences :: "MasstreeBorderPage \<Rightarrow> KeySlice \<Rightarrow> bool" where
  "within_fences p kslice = (get_low_fence p \<le> kslice \<and> kslice < get_high_fence p)"

subsection \<open>The border pages that the page operations build\<close>

text \<open>
  What the caller does before it reserves a slot (section 4.3 of the specification):
  it holds the page lock, sets the inserting bit and counts the new key.
\<close>

definition begin_insert :: "MasstreeBorderPage \<Rightarrow> MasstreeBorderPage" where
  "begin_insert p = p\<lparr>page_version := (page_version p)\<lparr>locked := True, inserting := True,
      key_count := key_count (page_version p) + 1\<rparr>\<rparr>"

text \<open>
  Modelled from the spec: the callers of the page functions are not among the
  sources. By sections 4.2 to 4.4 of the specification a writer reaches a border page
  by a descent that ends with a check of the slice (\<open>slice_check\<close>, a parameter),
  takes the page lock, scans again for the key with \<open>find_key_for_reserve\<close>, and
  reserves a new slot behind the existing ones only when the key is not found; a long
  record that conflicts is turned into a pointer to the next layer. The built pages
  are those that these steps make from a page without keys; the initialisation of a
  page (\<^verbatim>\<open>initialize_volatile_page\<close>) and \<^verbatim>\<open>copy_initial_record\<close> are only declared in
  the header.
\<close>

inductive border_page_built ::
  "(XctId \<Rightarrow> bool) \<Rightarrow> (MasstreeBorderPage \<Rightarrow> KeySlice \<Rightarrow> bool) \<Rightarrow> MasstreeBorderPage \<Rightarrow> bool"
  for is_keylocked and slice_check where
  fresh: "get_key_count (page_version p) = 0 \<Longrightarrow> border_page_built is_keylocked slice_check p"
| locked: "border_page_built is_keylocked slice_check p \<Longrightarrow> lock p = Some q \<Longrightarrow>
     border_page_built is_keylocked slice_check q"
| unlocked: "border_page_built is_keylocked slice_check p \<Longrightarrow>
     border_page_built is_keylocked slice_check (unlock p)"
| reserved: "border_page_built is_keylocked slice_check p \<Longrightarrow> slice_check p kslice \<Longrightarrow>
     find_key_for_reserve p 0 (get_key_count (page_version p)) kslice suffix remaining_length
       = Inr (FindKeyForReserveResult r kNotFound) \<Longrightarrow>
     reserve_record_space (begin_insert p) (get_key_count (page_version p)) owner kslice suffix
       remaining_length payload_count = Inr p' \<Longrightarrow>
     border_page_built is_keylocked slice_check p'"
| next_layer: "border_page_built is_keylocked slice_check p \<Longrightarrow>
     set_next_layer is_keylocked p index pointer = Inr p' \<Longrightarrow>
     border_page_built is_keylocked slice_check p'"

subsection \<open>The storage interface\<close>

text \<open>
  Modelled from the spec: \<^verbatim>\<open>MasstreeStorage::get_record\<close> is declared in
  \<^verbatim>\<open>masstree_storage.hpp\<close>, its body is not among the sources. Section 4.5 of the
  specification and the comment of the declaration say: it copies the payload and
  sets the capacity to the actual length; when the buffer is too small it returns
  \<^verbatim>\<open>kErrorCodeStrTooSmallPayloadBuffer\<close> with the required length in the capacity; on a
  miss it returns \<^verbatim>\<open>kErrorCodeStrKeyNotFound\<close> and adds a range-lock read-set entry
  that covers the gap between the neighbouring slots. The index is the list of its
  records, a key with its payload; a neighbour that does not exist is \<open>None\<close>, the
  extreme of the layer. Where the specification is silent (the capacity on a miss,
  the range-lock read set on a hit) the model leaves the value as it was.
\<close>

datatype ErrorCode =
  kErrorCodeOk | kErrorCodeStrKeyNotFound | kErrorCodeStrTooSmallPayloadBuffer

datatype 'k range_lock = RangeLock "'k option" "'k option"

definition lower_neighbour :: "('k::linorder \<times> bytes) list \<Rightarrow> 'k \<Rightarrow> 'k option" where
  "lower_neighbour recs key =
     (case filter (\<lambda>k. k < key) (map fst recs) of
        [] \<Rightarrow> None
      | k # ks \<Rightarrow> Some (fold max ks k))"

definition upper_neighbour :: "('k::linorder \<times> bytes) list \<Rightarrow> 'k \<Rightarrow> 'k option" where
  "upper_neighbour recs key =
     (case filter (\<lambda>k. key < k) (map fst recs) of
        [] \<Rightarrow> None
      | k # ks \<Rightarrow> Some (fold min ks k))"

definition storage_get_record ::
  "('k::linorder \<times> bytes) list \<Rightarrow> 'k range_lock list \<Rightarrow> 'k \<Rightarrow> nat
     \<Rightarrow> ErrorCode \<times> bytes option \<times> nat \<times> 'k range_lock list" where
  "storage_get_record recs range_lock_set key payload_capacity =
     (case map_of recs key of
        None \<Rightarrow>
          (kErrorCodeStrKeyNotFound, None, payload_capacity,
           range_lock_set @ [RangeLock (lower_neighbour recs key) (upper_neighbour recs key)])
      | Some payload \<Rightarrow>
          if payload_capacity < length payload
          then (kErrorCodeStrTooSmallPayloadBuffer, None, length payload, range_lock_set)
          else (kErrorCodeOk, Some payload, length payload, range_lock_set))"

section \<open>Example data\<close>

definition version0 :: MasstreePageVersion where
  "version0 = \<lparr>locked = False, inserting = False, splitting = False, deleted = False,
     has_foster = False, is_root = True, layer = 0, key_count = 0, vsplit = 0\<rparr>"

definition snapshot_page :: MasstreePage where
  "snapshot_page = \<lparr>header = \<lparr>snapshot = True\<rparr>, low_fence = 0, high_fence = - 1,
     in_layer_parent = 0, page_version = version0\<lparr>locked := True\<rparr>\<rparr>"

definition volatile_page :: MasstreePage where
  "volatile_page = \<lparr>header = \<lparr>snapshot = False\<rparr>, low_fence = 0, high_fence = - 1,
     in_layer_parent = 0, page_version = version0\<rparr>"

definition example_separators :: "nat \<Rightarrow> KeySlice" where
  "example_separators = (\<lambda>i. if i = 0 then 10 else if i = 1 then 20 else if i = 2 then 30 else 0)"

definition example_intermediate :: MasstreeIntermediatePage where
  "example_intermediate = \<lparr>header = \<lparr>snapshot = False\<rparr>, low_fence = 0, high_fence = - 1,
     in_layer_parent = 0, page_version = version0\<lparr>key_count := 3\<rparr>,
     separators = example_separators,
     mini_pages = (\<lambda>_. \<lparr>mini_version = version0\<lparr>key_count := 3\<rparr>,
        mini_separators = example_separators, pointers = (\<lambda>_. (0, 0))\<rparr>)\<rparr>"

text \<open>
  A fresh volatile border page: no key, fences at the extremes of the layer, every
  cell zero.
\<close>

definition empty_border_page :: MasstreeBorderPage where
  "empty_border_page = \<lparr>header = \<lparr>snapshot = False\<rparr>, low_fence = 0, high_fence = - 1,
     in_layer_parent = 0, page_version = version0,
     remaining_key_length = (\<lambda>_. 0), slices = (\<lambda>_. 0), offsets = (\<lambda>_. 0),
     payload_length = (\<lambda>_. 0), owner_ids = (\<lambda>_. 0), data = (\<lambda>_. 0)\<rparr>"

text \<open>
  A page with two 9-byte keys. Slot 0 has slice 1234, suffix byte 65 and a payload of
  2720 bytes, so its record starts at offset 1; slot 1 has slice 99, suffix byte 66
  and no payload, so its record starts at offset 0.
\<close>

definition suffix_page1 :: MasstreeBorderPage where
  "suffix_page1 = projr (reserve_record_space (begin_insert empty_border_page) 0 7 1234 [65] 9 2720)"

definition suffix_page :: MasstreeBorderPage where
  "suffix_page = projr (reserve_record_space (begin_insert suffix_page1) 1 7 99 [66] 9 0)"

text \<open>
  The same first slot, then a second key of 254 bytes with a payload of 65280 bytes:
  suffix and payload are 65526 bytes, which align to 65536.
\<close>

definition wrap_page :: MasstreeBorderPage where
  "wrap_page = projr (reserve_record_space (begin_insert suffix_page1) 1 7 99
     (replicate 246 66) 254 65280)"

text \<open>
  A page whose only key has 9 bytes and no payload: its record is the last 16 bytes
  of the data region, at offset 171.
\<close>

definition small_page1 :: MasstreeBorderPage where
  "small_page1 = projr (reserve_record_space (begin_insert empty_border_page) 0 7 1234 [65] 9 0)"




text \<open>An index with the keys 10, 20 and 30.\<close>

definition example_records :: "(nat \<times> bytes) list" where
  "example_records = [(10, [1, 2, 3]), (20, []), (30, [4])]"

text \<open>
  A page with the keys \<^verbatim>\<open>"a"\<close>, \<^verbatim>\<open>"a\0"\<close> and \<^verbatim>\<open>"a\0\0\0\0\0\0\0"\<close>: three keys of 1, 2
  and 8 bytes with the same slice \<^verbatim>\<open>0x6100000000000000\<close>.
\<close>

definition shared_slice_page1 :: MasstreeBorderPage where
  "shared_slice_page1 =
     projr (reserve_record_space (begin_insert empty_border_page) 0 7 0x6100000000000000 [] 1 16)"

definition shared_slice_page2 :: MasstreeBorderPage where
  "shared_slice_page2 =
     projr (reserve_record_space (begin_insert shared_slice_page1) 1 7 0x6100000000000000 [] 2 16)"

definition shared_slice_page :: MasstreeBorderPage where
  "shared_slice_page =
     projr (reserve_record_space (begin_insert shared_slice_page2) 2 7 0x6100000000000000 [] 8 16)"

text \<open>
  The same page with a fourth key, of 9 bytes: \<^verbatim>\<open>"a\0\0\0\0\0\0\0x"\<close>, which has the same
  slice and the suffix byte 120.
\<close>

definition mixed_slice_page :: MasstreeBorderPage where
  "mixed_slice_page =
     projr (reserve_record_space (begin_insert shared_slice_page) 3 7 0x6100000000000000 [120] 9 0)"

text \<open>
  The page \<open>shared_slice_page1\<close> with a second slot for its key \<^verbatim>\<open>"a"\<close>, reserved without a
  scan for the key.
\<close>

definition duplicate_page :: MasstreeBorderPage where
  "duplicate_page =
     projr (reserve_record_space (begin_insert shared_slice_page1) 1 7 0x6100000000000000 [] 1 16)"

text \<open>In the examples every record lock counts as held.\<close>

definition every_key_locked :: "XctId \<Rightarrow> bool" where
  "every_key_locked owner = True"

section \<open>Searching an intermediate page\<close>

lemma find_separator_loop_done:
  "\<not> i < n \<Longrightarrow> find_separator_loop seps n s i = n"
  by (simp add: find_separator_loop.simps)

lemma find_separator_loop_found:
  "i < n \<Longrightarrow> s < seps i \<Longrightarrow> find_separator_loop seps n s i = i"
  by (simp add: find_separator_loop.simps)

lemma find_separator_loop_next:
  "i < n \<Longrightarrow> \<not> s < seps i \<Longrightarrow>
   find_separator_loop seps n s i = find_separator_loop seps n s (Suc i)"
  by (subst find_separator_loop.simps) simp

lemma find_separator_loop_bounds:
  "i \<le> n \<Longrightarrow> i \<le> find_separator_loop seps n s i \<and> find_separator_loop seps n s i \<le> n"
proof (induction seps n s i rule: find_separator_loop.induct)
  case (1 seps n s i)
  consider (stop) "\<not> i < n" | (hit) "i < n" "s < seps i" | (step) "i < n" "\<not> s < seps i"
    by blast
  then show ?case
  proof cases
    case stop
    with 1 show ?thesis by (simp add: find_separator_loop_done)
  next
    case hit
    then show ?thesis by (simp add: find_separator_loop_found)
  next
    case step
    with 1 have "Suc i \<le> find_separator_loop seps n s (Suc i)
        \<and> find_separator_loop seps n s (Suc i) \<le> n"
      by simp
    with step show ?thesis by (simp add: find_separator_loop_next)
  qed
qed

lemma find_separator_loop_skipped:
  "i \<le> j \<Longrightarrow> j < find_separator_loop seps n s i \<Longrightarrow> \<not> s < seps j"
proof (induction seps n s i rule: find_separator_loop.induct)
  case (1 seps n s i)
  consider (stop) "\<not> i < n" | (hit) "i < n" "s < seps i" | (step) "i < n" "\<not> s < seps i"
    by blast
  then show ?case
  proof cases
    case stop
    with 1 have "j < n" "n \<le> i" by (simp_all add: find_separator_loop_done)
    with 1 show ?thesis by simp
  next
    case hit
    with 1 show ?thesis by (simp add: find_separator_loop_found)
  next
    case step
    show ?thesis
    proof (cases "j = i")
      case True
      with step show ?thesis by simp
    next
      case False
      with 1 step show ?thesis by (simp add: find_separator_loop_next)
    qed
  qed
qed

lemma find_separator_loop_hit:
  "find_separator_loop seps n s i < n \<Longrightarrow> s < seps (find_separator_loop seps n s i)"
proof (induction seps n s i rule: find_separator_loop.induct)
  case (1 seps n s i)
  consider (stop) "\<not> i < n" | (hit) "i < n" "s < seps i" | (step) "i < n" "\<not> s < seps i"
    by blast
  then show ?case
  proof cases
    case stop
    with 1 show ?thesis by (simp add: find_separator_loop_done)
  next
    case hit
    then show ?thesis by (simp add: find_separator_loop_found)
  next
    case step
    with 1 show ?thesis by (simp add: find_separator_loop_next)
  qed
qed

text \<open>
  C5. With at most 9 separators (15 in a mini-page), \<open>find_minipage\<close> (\<open>find_pointer\<close>)
  returns an index \<open>r\<close> that is at most the separator count, the slice is not below
  any separator before \<open>r\<close>, and, when \<open>r\<close> is smaller than the count, the slice is
  strictly below separator \<open>r\<close>: \<open>r\<close> is the smallest index whose separator exceeds
  the slice, or the count when there is none. Hence
  \<open>separators (r - 1) \<le> slice < separators r\<close> wherever those separators exist.
\<close>

theorem find_minipage_smallest_separator:
  "(get_key_count stable_version mod 256 \<le> kMaxIntermediateSeparators \<longrightarrow>
      (\<exists>r. find_minipage p stable_version kslice = Inr r
         \<and> r \<le> get_key_count stable_version mod 256
         \<and> (\<forall>j. j < r \<longrightarrow> separators p j \<le> kslice)
         \<and> (r < get_key_count stable_version mod 256 \<longrightarrow> kslice < separators p r)
         \<and> (0 < r \<longrightarrow> separators p (r - 1) \<le> kslice)))
   \<and> (get_key_count stable_version mod 256 \<le> kMaxIntermediateMiniSeparators \<longrightarrow>
      (\<exists>r. find_pointer m stable_version kslice = Inr r
         \<and> r \<le> get_key_count stable_version mod 256
         \<and> (\<forall>j. j < r \<longrightarrow> mini_separators m j \<le> kslice)
         \<and> (r < get_key_count stable_version mod 256 \<longrightarrow> kslice < mini_separators m r)
         \<and> (0 < r \<longrightarrow> mini_separators m (r - 1) \<le> kslice)))"
proof -
  have key: "\<And>seps n. find_separator_loop seps n kslice 0 \<le> n
      \<and> (\<forall>j. j < find_separator_loop seps n kslice 0 \<longrightarrow> seps j \<le> kslice)
      \<and> (find_separator_loop seps n kslice 0 < n \<longrightarrow> kslice < seps (find_separator_loop seps n kslice 0))
      \<and> (0 < find_separator_loop seps n kslice 0 \<longrightarrow> seps (find_separator_loop seps n kslice 0 - 1) \<le> kslice)"
  proof -
    fix seps :: "nat \<Rightarrow> KeySlice" and n :: nat
    let ?r = "find_separator_loop seps n kslice 0"
    have a: "?r \<le> n"
      using find_separator_loop_bounds [of 0 n seps kslice] by simp
    have b: "\<forall>j. j < ?r \<longrightarrow> seps j \<le> kslice"
      using find_separator_loop_skipped [of 0 _ seps n kslice] by (simp add: not_less)
    have c: "?r < n \<longrightarrow> kslice < seps ?r"
      using find_separator_loop_hit [of seps n kslice 0] by simp
    have d: "0 < ?r \<longrightarrow> seps (?r - 1) \<le> kslice"
      using b by simp
    from a b c d show "?r \<le> n \<and> (\<forall>j. j < ?r \<longrightarrow> seps j \<le> kslice)
      \<and> (?r < n \<longrightarrow> kslice < seps ?r) \<and> (0 < ?r \<longrightarrow> seps (?r - 1) \<le> kslice)"
      by blast
  qed
  show ?thesis
    using key [of "separators p" "get_key_count stable_version mod 256"]
      key [of "mini_separators m" "get_key_count stable_version mod 256"]
    by (simp add: find_minipage_def find_pointer_def Let_def)
qed

theorem find_minipage_smallest_separator_witness:
  "get_key_count (page_version example_intermediate) mod 256 \<le> kMaxIntermediateSeparators
   \<and> get_key_count (mini_version (mini_pages example_intermediate 0)) mod 256
       \<le> kMaxIntermediateMiniSeparators
   \<and> find_minipage example_intermediate (page_version example_intermediate) 25 = Inr 2
   \<and> find_pointer (mini_pages example_intermediate 0)
       (mini_version (mini_pages example_intermediate 0)) 30 = Inr 3"
proof -
  have h1: "get_key_count (page_version example_intermediate) mod 256 \<le> kMaxIntermediateSeparators"
    by (simp add: get_key_count_def example_intermediate_def version0_def
        kMaxIntermediateSeparators_def)
  have h2: "get_key_count (mini_version (mini_pages example_intermediate 0)) mod 256
       \<le> kMaxIntermediateMiniSeparators"
    by (simp add: get_key_count_def example_intermediate_def version0_def
        kMaxIntermediateMiniSeparators_def)
  have e1: "find_minipage example_intermediate (page_version example_intermediate) 25 = Inr 2"
    by (simp add: find_minipage_def get_key_count_def example_intermediate_def version0_def
        kMaxIntermediateSeparators_def example_separators_def find_separator_loop.simps)
  have e2: "find_pointer (mini_pages example_intermediate 0)
       (mini_version (mini_pages example_intermediate 0)) 30 = Inr 3"
    by (simp add: find_pointer_def get_key_count_def example_intermediate_def version0_def
        kMaxIntermediateMiniSeparators_def example_separators_def find_separator_loop.simps)
  from find_minipage_smallest_separator
    [of "page_version example_intermediate" example_intermediate 25
        "mini_pages example_intermediate 0"]
  show ?thesis using h1 h2 e1 e2 by simp
qed

section \<open>Page lock and snapshot pages\<close>

text \<open>
  C10. On a page whose header marks it as a snapshot page, \<open>lock\<close> returns the page
  as it is and \<open>unlock\<close> leaves it as it is: the version word and every other field,
  also those of the border or intermediate page that extends the common base, are
  unchanged. On a volatile page both calls act on the version word only.
\<close>

theorem lock_unlock_snapshot_noop:
  "(snapshot (header p) \<longrightarrow> lock p = Some p \<and> unlock p = p)
   \<and> (\<not> snapshot (header p) \<longrightarrow>
        lock p = map_option (\<lambda>v. p\<lparr>page_version := v\<rparr>) (lock_version (page_version p))
        \<and> unlock p = p\<lparr>page_version := unlock_version (page_version p)\<rparr>)"
  by (simp add: lock_def unlock_def split: option.splits)

theorem lock_unlock_snapshot_noop_witness:
  "snapshot (header snapshot_page)
   \<and> lock snapshot_page = Some snapshot_page \<and> unlock snapshot_page = snapshot_page
   \<and> \<not> snapshot (header volatile_page)
   \<and> lock volatile_page = Some (volatile_page\<lparr>page_version := version0\<lparr>locked := True\<rparr>\<rparr>)"
proof -
  have s: "snapshot (header snapshot_page)"
    by (simp add: snapshot_page_def)
  have v: "\<not> snapshot (header volatile_page)"
    by (simp add: volatile_page_def)
  have lv: "lock_version (page_version volatile_page) = Some (version0\<lparr>locked := True\<rparr>)"
    by (simp add: lock_version_def volatile_page_def version0_def)
  from lock_unlock_snapshot_noop [of snapshot_page] lock_unlock_snapshot_noop [of volatile_page]
  show ?thesis using s v lv by simp
qed

section \<open>Loops\<close>

lemma for_loop_stop: "\<not> i < n \<Longrightarrow> for_loop body n after i = Inr after"
  by (simp add: for_loop.simps)

lemma for_loop_Continue:
  "i < n \<Longrightarrow> body i = Continue \<Longrightarrow> for_loop body n after i = for_loop body n after (Suc i)"
  by (subst for_loop.simps) simp

lemma for_loop_Break: "i < n \<Longrightarrow> body i = Break \<Longrightarrow> for_loop body n after i = Inr after"
  by (subst for_loop.simps) simp

lemma for_loop_Return: "i < n \<Longrightarrow> body i = Return r \<Longrightarrow> for_loop body n after i = Inr r"
  by (subst for_loop.simps) simp

lemma for_loop_Abort: "i < n \<Longrightarrow> body i = Abort e \<Longrightarrow> for_loop body n after i = Inl e"
  by (subst for_loop.simps) simp

lemma for_loop_result:
  "for_loop body n after i = Inr r \<Longrightarrow> r = after \<or> (\<exists>j. i \<le> j \<and> j < n \<and> body j = Return r)"
proof (induction body n after i rule: for_loop.induct)
  case (1 body n after i)
  show ?case
  proof (cases "i < n")
    case False
    with 1 show ?thesis by (simp add: for_loop_stop)
  next
    case True
    show ?thesis
    proof (cases "body i")
      case Continue
      with True 1 have "r = after \<or> (\<exists>j. Suc i \<le> j \<and> j < n \<and> body j = Return r)"
        by (simp add: for_loop_Continue)
      then show ?thesis by (auto intro: Suc_leD)
    next
      case Break
      with True 1 show ?thesis by (simp add: for_loop_Break)
    next
      case (Return x)
      with True 1 have "x = r" by (simp add: for_loop_Return)
      with True Return show ?thesis by auto
    next
      case (Abort e)
      with True 1 show ?thesis by (simp add: for_loop_Abort)
    qed
  qed
qed

lemma find_key_body_Return: "find_key_body p ks suffix remaining j = Return r \<Longrightarrow> r = j"
  by (auto simp: find_key_body_def Let_def split: if_splits sum.splits)

lemma find_key_normalized_body_Return: "find_key_normalized_body p ks j = Return r \<Longrightarrow> r = j"
  by (auto simp: find_key_normalized_body_def split: if_splits)

lemma find_key_for_reserve_body_Return:
  "find_key_for_reserve_body p ks suffix remaining j = Return (FindKeyForReserveResult r mt)
   \<Longrightarrow> r = j \<and> mt \<noteq> kNotFound"
  by (auto simp: find_key_for_reserve_body_def split: if_splits sum.splits)

section \<open>Record sizes and slot reservation\<close>

lemma unat8_less: "unat (w :: 8 word) < 256"
  using unsigned_less [of w, where 'a = nat] by simp

lemma unat_size16:
  "x < 2 ^ 16 \<Longrightarrow> unat (of_nat x :: 16 word) = x"
  by (simp add: unat_of_nat)

lemma unat_last_offset:
  "unat (push_bit 4 (ucast (off :: 8 word)) :: 16 word) = 16 * unat off"
proof -
  have a: "unat (push_bit 4 (ucast off :: 16 word))
      = take_bit LENGTH(16) (push_bit 4 (unat (ucast off :: 16 word)))"
    by (rule unsigned_push_bit_eq)
  have b: "unat (ucast off :: 16 word) = take_bit LENGTH(16) (unat off)"
    by (rule unsigned_ucast_eq)
  show ?thesis
    unfolding a b using unat8_less [of off] by (simp add: take_bit_eq_mod push_bit_eq_mult)
qed

lemma unat_record_size8:
  "unat s div 16 < 256 \<Longrightarrow> unat (ucast (drop_bit 4 (s :: 16 word)) :: 8 word) = unat s div 16"
proof -
  assume lt: "unat s div 16 < 256"
  have a: "unat (ucast (drop_bit 4 s) :: 8 word) = take_bit LENGTH(8) (unat (drop_bit 4 s))"
    by (rule unsigned_ucast_eq)
  have b: "unat (drop_bit 4 s) = drop_bit 4 (unat s)"
    by (rule unat_drop_bit_eq)
  show ?thesis
    unfolding a b using lt by (simp add: take_bit_eq_mod drop_bit_eq_div)
qed

lemma align16_props:
  "x \<le> align16 x \<and> align16 x < x + 16 \<and> align16 x mod 16 = 0 \<and> 16 * (align16 x div 16) = align16 x"
  by (simp add: align16_def) presburger

lemma calculate_suffix_length_Inr:
  "remaining_length \<le> kKeyLengthMax \<Longrightarrow>
   \<exists>sl. calculate_suffix_length remaining_length = Inr sl \<and> unat sl = unat remaining_length - sizeof_KeySlice"
  by (auto simp: calculate_suffix_length_def kKeyLengthMax_def kKeyLengthNextLayer_def
      sizeof_KeySlice_def unat_sub word_le_nat_alt)

lemma calculate_record_size_Inr:
  "remaining_length \<le> kKeyLengthMax \<Longrightarrow>
   calculate_record_size remaining_length payload_count
     = Inr (of_nat (align16 (unat remaining_length - sizeof_KeySlice + unat payload_count)))"
  using calculate_suffix_length_Inr [of remaining_length]
  by (auto simp: calculate_record_size_def)

lemma can_accomodate_first:
  "can_accomodate p 0 remaining_length payload_count
     = (if unat remaining_length + unat payload_count \<le> kDataSize then Inr True else Inl AssertFailed)"
  by (simp add: can_accomodate_def)

lemma can_accomodate_later:
  "0 < new_index \<Longrightarrow> new_index \<le> kMaxKeys \<Longrightarrow> remaining_length \<le> kKeyLengthMax \<Longrightarrow>
   can_accomodate p new_index remaining_length payload_count
     = Inr (align16 (unat remaining_length - sizeof_KeySlice + unat payload_count) mod 2 ^ 16
            \<le> 16 * unat (offsets p (new_index - 1)))"
  by (simp add: can_accomodate_def calculate_record_size_Inr Let_def word_le_nat_alt
      unat_last_offset unat_of_nat)

lemma first_record_fits:
  "unat (remaining_length :: 8 word) + unat (payload_count :: 16 word) \<le> kDataSize \<Longrightarrow>
   align16 (unat remaining_length - sizeof_KeySlice + unat payload_count) \<le> kDataSize"
  by (simp add: align16_def kDataSize_def kHeaderSize_def sizeof_KeySlice_def)

lemma heap_offset_sum:
  "s \<le> 16 * pv \<Longrightarrow> 16 * (s div 16) = s \<Longrightarrow> 16 * (pv - s div 16) + s = 16 * (pv::nat)"
  by (simp add: diff_mult_distrib2)

lemma aligned_size_positive:
  "0 < sl \<Longrightarrow> sl + pc \<le> s \<Longrightarrow> 16 * (s div 16) = s \<Longrightarrow> 16 \<le> (s::nat)"
  by presburger

lemma suffix_inside_data:
  "16 \<le> s \<Longrightarrow> sl + pc \<le> s \<Longrightarrow> 16 * off + s = 16 * pv \<Longrightarrow> pv \<le> 172 \<Longrightarrow>
   off < 172 \<and> off * 16 + sl \<le> (2752::nat)"
  by simp

lemma unat_offset_sub:
  "unat (rs :: 8 word) = k \<Longrightarrow> unat (pw :: 8 word) = pv \<Longrightarrow> k \<le> pv \<Longrightarrow> unat (pw - rs) = pv - k"
  by (simp add: unat_sub word_le_nat_alt)

lemma word8_of_unat: "unat (w :: 8 word) = off \<Longrightarrow> w = of_nat off"
  by auto

lemma reserve_record_space_Inr:
  assumes lck: "is_locked (page_version p)" and ins: "is_inserting (page_version p)"
    and kc: "get_key_count (page_version p) = index + 1"
    and fits: "can_accomodate p index remaining_length payload_count = Inr True"
    and len: "remaining_length \<le> kKeyLengthMax" and idx: "index < kMaxKeys"
    and nowrap: "align16 (unat remaining_length - sizeof_KeySlice + unat payload_count) < 2 ^ 16"
    and buf: "unat remaining_length - sizeof_KeySlice \<le> length suffix"
    and prev: "0 < index \<Longrightarrow> unat (offsets p (index - 1)) \<le> kDataSize div 16"
  shows "\<exists>p' off. reserve_record_space p index owner ks suffix remaining_length payload_count = Inr p'
     \<and> 16 * off + align16 (unat remaining_length - sizeof_KeySlice + unat payload_count)
          = (if index = 0 then kDataSize else 16 * unat (offsets p (index - 1)))
     \<and> offsets p' = (offsets p)(index := of_nat off) \<and> unat (of_nat off :: 8 word) = off
     \<and> slices p' = (slices p)(index := ks)
     \<and> remaining_key_length p' = (remaining_key_length p)(index := remaining_length)
     \<and> payload_length p' = (payload_length p)(index := payload_count)
     \<and> owner_ids p' = (owner_ids p)(index := owner)
     \<and> data p' = (\<lambda>a. if 16 * off \<le> a \<and> a < 16 * off + (unat remaining_length - sizeof_KeySlice)
                         then suffix ! (a - 16 * off) else data p a)
     \<and> header p' = header p \<and> low_fence p' = low_fence p \<and> high_fence p' = high_fence p
     \<and> in_layer_parent p' = in_layer_parent p \<and> page_version p' = page_version p"
proof -
  define sl where "sl = unat remaining_length - sizeof_KeySlice"
  define size where "size = align16 (sl + unat payload_count)"
  define prevn where "prevn = (if index = 0 then kDataSize div 16 else unat (offsets p (index - 1)))"
  define prevw where "prevw = (if index = 0 then of_nat (kDataSize div 16) else offsets p (index - 1) :: 8 word)"
  define off where "off = prevn - size div 16"
  obtain sl8 where css: "calculate_suffix_length remaining_length = Inr sl8" and sl8: "unat sl8 = sl"
    using calculate_suffix_length_Inr [OF len] sl_def by auto
  have crs: "calculate_record_size remaining_length payload_count = Inr (of_nat size)"
    using calculate_record_size_Inr [OF len] by (simp add: size_def sl_def)
  have usize: "unat (of_nat size :: 16 word) = size"
    using nowrap by (simp add: unat_of_nat size_def sl_def)
  have prevn_le: "prevn \<le> kDataSize div 16"
    using prev by (simp add: prevn_def)
  have prevw: "unat prevw = prevn"
    by (simp add: prevw_def prevn_def kDataSize_def kHeaderSize_def)
  have size_le: "size \<le> 16 * prevn"
  proof (cases "index = 0")
    case True
    with fits have "unat remaining_length + unat payload_count \<le> kDataSize"
      by (simp add: can_accomodate_first split: if_splits)
    from first_record_fits [OF this] True show ?thesis
      by (simp add: size_def sl_def prevn_def kDataSize_def kHeaderSize_def)
  next
    case False
    with fits idx len have "size mod 2 ^ 16 \<le> 16 * unat (offsets p (index - 1))"
      by (simp add: can_accomodate_later size_def sl_def)
    with nowrap False show ?thesis
      by (simp add: size_def sl_def prevn_def)
  qed
  have al: "sl + unat payload_count \<le> size \<and> 16 * (size div 16) = size"
    using align16_props [of "sl + unat payload_count"] by (simp add: size_def)
  have rs_small: "size div 16 \<le> prevn"
    using size_le by simp
  have kd: "kDataSize div 16 = 172"
    by (simp add: kDataSize_def kHeaderSize_def)
  have rs8: "unat (ucast (drop_bit 4 (of_nat size :: 16 word)) :: 8 word) = size div 16"
    using rs_small prevn_le by (simp add: unat_record_size8 usize kd)
  have offw: "unat (prevw - ucast (drop_bit 4 (of_nat size :: 16 word))) = off"
    unfolding off_def by (rule unat_offset_sub [OF rs8 prevw rs_small])
  have off_eq: "16 * off + size = 16 * prevn"
    unfolding off_def using size_le al by (intro heap_offset_sum) simp_all
  have offw': "prevw - ucast (drop_bit 4 (of_nat size :: 16 word)) = of_nat off"
    by (rule word8_of_unat [OF offw])
  have uoff: "unat (of_nat off :: 8 word) = off"
    using offw unfolding offw' .
  have kds: "kDataSize = 2752"
    by (simp add: kDataSize_def kHeaderSize_def)
  have pos_ok: "0 < sl \<Longrightarrow> off < kDataSize div 16 \<and> 16 * off + sl \<le> kDataSize"
  proof -
    assume pos: "0 < sl"
    have s16: "16 \<le> size"
      using pos al by (intro aligned_size_positive [of sl "unat payload_count"]) simp_all
    have "prevn \<le> 172" using prevn_le kd by simp
    from suffix_inside_data [OF s16 _ off_eq this, of sl "unat payload_count"] al
    show ?thesis unfolding kd kds by (simp add: mult.commute [of off 16])
  qed
  let ?meta = "p\<lparr>slices := (slices p)(index := ks),
               remaining_key_length := (remaining_key_length p)(index := remaining_length),
               payload_length := (payload_length p)(index := payload_count),
               offsets := (offsets p)(index := of_nat off),
               owner_ids := (owner_ids p)(index := owner)\<rparr>"
  let ?copy = "\<lambda>a. if 16 * off \<le> a \<and> a < 16 * off + sl then suffix ! (a - 16 * off) else data p a"
  have res: "reserve_record_space p index owner ks suffix remaining_length payload_count
    = Inr (if 0 < sl then ?meta\<lparr>data := ?copy\<rparr> else ?meta)"
    using lck ins kc fits len idx css crs pos_ok buf
    by (simp add: reserve_record_space_def Let_def sl8 offw' [unfolded prevw_def] get_record_def
        memcpy_def uoff sl_def [symmetric] mult.commute [of off 16])
  have copy0: "\<not> 0 < sl \<Longrightarrow> ?copy = data p"
  proof -
    assume "\<not> 0 < sl"
    then have "sl = 0" by simp
    then show "?copy = data p" by (intro ext) auto
  qed
  have r0: "16 * off + align16 (unat remaining_length - sizeof_KeySlice + unat payload_count)
          = (if index = 0 then kDataSize else 16 * unat (offsets p (index - 1)))"
    using off_eq by (simp add: size_def sl_def prevn_def kd kDataSize_def kHeaderSize_def)
  show ?thesis
  proof (cases "0 < sl")
    case True
    with res have "reserve_record_space p index owner ks suffix remaining_length payload_count
       = Inr (?meta\<lparr>data := ?copy\<rparr>)" by simp
    with r0 uoff show ?thesis
      by (intro exI [of _ "?meta\<lparr>data := ?copy\<rparr>"] exI [of _ off]) (simp add: sl_def)
  next
    case False
    with res have "reserve_record_space p index owner ks suffix remaining_length payload_count
       = Inr ?meta" by simp
    with r0 uoff copy0 [OF False] show ?thesis
      by (intro exI [of _ ?meta] exI [of _ off]) (simp add: sl_def)
  qed
qed



section \<open>The example pages, evaluated\<close>

lemmas page_consts = kMaxKeys_def kKeyLengthNextLayer_def kKeyLengthMax_def kHeaderSize_def
  kDataSize_def sizeof_KeySlice_def

lemmas page_ops = Let_def get_record_def does_point_to_layer_def calculate_suffix_length_def
  align16_def calculate_record_size_def can_accomodate_def memcmp_eq_def memcpy_def
  is_locked_def is_inserting_def get_key_count_def reserve_record_space_def

lemmas example_pages = empty_border_page_def begin_insert_def version0_def

lemma suffix_page1_reserved:
  "reserve_record_space (begin_insert empty_border_page) 0 7 1234 [65] 9 2720 = Inr suffix_page1"
  unfolding suffix_page1_def by (simp add: page_ops page_consts example_pages)

lemma suffix_page1_fields:
  "offsets suffix_page1 0 = 1" "slices suffix_page1 0 = 1234"
  "remaining_key_length suffix_page1 0 = 9" "data suffix_page1 16 = 65"
  "page_version suffix_page1 = version0\<lparr>locked := True, inserting := True, key_count := 1\<rparr>"
  unfolding suffix_page1_def by (simp_all add: page_ops page_consts example_pages)

lemma suffix_page_reserved:
  "reserve_record_space (begin_insert suffix_page1) 1 7 99 [66] 9 0 = Inr suffix_page"
  unfolding suffix_page_def suffix_page1_def by (simp add: page_ops page_consts example_pages)

lemma suffix_page_fields:
  "offsets suffix_page 0 = 1" "offsets suffix_page 1 = 0"
  "slices suffix_page 0 = 1234" "slices suffix_page 1 = 99"
  "remaining_key_length suffix_page 0 = 9" "remaining_key_length suffix_page 1 = 9"
  "data suffix_page 16 = 65" "data suffix_page 0 = 66"
  "get_key_count (page_version suffix_page) = 2"
  unfolding suffix_page_def suffix_page1_def by (simp_all add: page_ops page_consts example_pages)

lemma wrap_page_reserved:
  "reserve_record_space (begin_insert suffix_page1) 1 7 99 (replicate 246 66) 254 65280 = Inr wrap_page"
  unfolding wrap_page_def suffix_page1_def by (simp add: page_ops page_consts example_pages)

lemma wrap_page_fields:
  "offsets wrap_page 1 = 1" "data wrap_page 16 = 66"
  unfolding wrap_page_def suffix_page1_def by (simp_all add: page_ops page_consts example_pages)

lemma wrap_accomodated:
  "can_accomodate (begin_insert suffix_page1) 1 254 65280 = Inr True"
  unfolding suffix_page1_def by (simp add: page_ops page_consts example_pages)



lemma shared_slice_page_reserved:
  "reserve_record_space (begin_insert empty_border_page) 0 7 0x6100000000000000 [] 1 16
     = Inr shared_slice_page1"
  "reserve_record_space (begin_insert shared_slice_page1) 1 7 0x6100000000000000 [] 2 16
     = Inr shared_slice_page2"
  "reserve_record_space (begin_insert shared_slice_page2) 2 7 0x6100000000000000 [] 8 16
     = Inr shared_slice_page"
  unfolding shared_slice_page_def shared_slice_page2_def shared_slice_page1_def
  by (simp_all add: page_ops page_consts example_pages)

lemma shared_slice_page_fields:
  "slices shared_slice_page 0 = 0x6100000000000000"
  "slices shared_slice_page 1 = 0x6100000000000000"
  "slices shared_slice_page 2 = 0x6100000000000000"
  "remaining_key_length shared_slice_page 0 = 1"
  "remaining_key_length shared_slice_page 1 = 2"
  "remaining_key_length shared_slice_page 2 = 8"
  "slices shared_slice_page (Suc (Suc 0)) = 0x6100000000000000"
  "remaining_key_length shared_slice_page (Suc (Suc 0)) = 8"
  "get_key_count (page_version shared_slice_page) = 3"
  unfolding shared_slice_page_def shared_slice_page2_def shared_slice_page1_def
  by (simp_all add: page_ops page_consts example_pages)

lemma shared_slice_page_search:
  "find_key shared_slice_page (page_version shared_slice_page) 0x6100000000000000 [] 8 = Inr 2"
  "find_key_normalized shared_slice_page 0 3 0x6100000000000000 = Inr 2"
  "find_key_for_reserve shared_slice_page 0 3 0x6100000000000000 [] 8
     = Inr (FindKeyForReserveResult 2 kExactMatchLocalRecord)"
  using shared_slice_page_fields
  by (simp_all add: find_key_def find_key_body_def find_key_normalized_def
      find_key_normalized_body_def find_key_for_reserve_def find_key_for_reserve_body_def
      for_loop.simps page_consts does_point_to_layer_def)

lemma suffix_page_search:
  "find_key suffix_page (page_version suffix_page) 1234 [65] 9 = Inr 64"
  "find_key suffix_page (page_version suffix_page) 1234 [66] 9 = Inr 0"
  using suffix_page_fields
  by (simp_all add: find_key_def find_key_body_def for_loop.simps page_consts
      does_point_to_layer_def get_record_def memcmp_eq_def)

section \<open>Does a new record fit?\<close>

text \<open>
  Where the aligned record size \<open>align16 (suffix_length + payload_count)\<close> stays below
  \<open>2 ^ 16\<close>, \<open>can_accomodate\<close> for a slot \<open>0 < new_index \<le> kMaxKeys\<close> is true iff that
  size is at most 16 times the offset of the previous slot. For the first slot it is
  true whenever \<open>remaining_length + payload_count \<le> kDataSize\<close> (what it asserts), and
  the aligned size then fits the data region. The suffix length of the code is
  \<open>remaining_length - 8\<close>, or 0 for shorter keys.
\<close>

lemma can_accomodate_below_wrap:
  "(0 < new_index \<and> new_index \<le> kMaxKeys \<and> remaining_length \<le> kKeyLengthMax
      \<and> align16 (unat remaining_length - sizeof_KeySlice + unat payload_count) < 2 ^ 16 \<longrightarrow>
      can_accomodate p new_index remaining_length payload_count
        = Inr (align16 (unat remaining_length - sizeof_KeySlice + unat payload_count)
               \<le> 16 * unat (offsets p (new_index - 1))))
   \<and> (unat remaining_length + unat payload_count \<le> kDataSize \<longrightarrow>
        can_accomodate p 0 remaining_length payload_count = Inr True
        \<and> align16 (unat remaining_length - sizeof_KeySlice + unat payload_count) \<le> kDataSize)
   \<and> (remaining_length \<le> kKeyLengthMax \<longrightarrow>
        (\<exists>suffix_length. calculate_suffix_length remaining_length = Inr suffix_length
           \<and> unat suffix_length = unat remaining_length - sizeof_KeySlice))"
proof -
  have a: "0 < new_index \<and> new_index \<le> kMaxKeys \<and> remaining_length \<le> kKeyLengthMax
      \<and> align16 (unat remaining_length - sizeof_KeySlice + unat payload_count) < 2 ^ 16 \<longrightarrow>
      can_accomodate p new_index remaining_length payload_count
        = Inr (align16 (unat remaining_length - sizeof_KeySlice + unat payload_count)
               \<le> 16 * unat (offsets p (new_index - 1)))"
    by (simp add: can_accomodate_later)
  have b: "unat remaining_length + unat payload_count \<le> kDataSize \<longrightarrow>
        can_accomodate p 0 remaining_length payload_count = Inr True
        \<and> align16 (unat remaining_length - sizeof_KeySlice + unat payload_count) \<le> kDataSize"
    using first_record_fits [of remaining_length payload_count]
    by (simp add: can_accomodate_first)
  have c: "remaining_length \<le> kKeyLengthMax \<longrightarrow>
        (\<exists>suffix_length. calculate_suffix_length remaining_length = Inr suffix_length
           \<and> unat suffix_length = unat remaining_length - sizeof_KeySlice)"
    using calculate_suffix_length_Inr [of remaining_length] by blast
  from a b c show ?thesis by blast
qed

text \<open>
  C3. The claim says that \<open>can_accomodate\<close> is true iff the aligned record size fits
  below the previous record. \<open>calculate_record_size\<close> returns \<^verbatim>\<open>uint16_t\<close>, and the path
  for \<open>new_index > 0\<close> does not bound the sizes as the path for \<open>new_index = 0\<close> does:
  a key of 254 bytes with a payload of 65280 bytes has an aligned size of 65536 bytes,
  which is returned as 0, and \<open>can_accomodate\<close> accepts it on \<open>suffix_page1\<close>, whose last
  record starts 16 bytes into the data region.
\<close>

theorem can_accomodate_accepts_wrapped_size:
  "(254 :: 8 word) \<le> kKeyLengthMax
   \<and> can_accomodate (begin_insert suffix_page1) 1 254 65280 = Inr True
   \<and> \<not> align16 (unat (254 :: 8 word) - sizeof_KeySlice + unat (65280 :: 16 word))
         \<le> 16 * unat (offsets (begin_insert suffix_page1) 0)
   \<and> calculate_record_size 254 65280 = Inr 0
   \<and> can_accomodate (begin_insert suffix_page1) 0 254 65280 = Inl AssertFailed"
proof -
  have c: "calculate_record_size 254 65280 = Inr 0"
    "can_accomodate (begin_insert suffix_page1) 0 254 65280 = Inl AssertFailed"
    by (simp_all add: calculate_record_size_def calculate_suffix_length_def can_accomodate_def
        align16_def page_consts)
  have a: "(254 :: 8 word) \<le> kKeyLengthMax"
    by (simp add: page_consts)
  have b: "\<not> align16 (unat (254 :: 8 word) - sizeof_KeySlice + unat (65280 :: 16 word))
         \<le> 16 * unat (offsets (begin_insert suffix_page1) 0)"
    by (simp add: suffix_page1_fields begin_insert_def align16_def page_consts)
  from a wrap_accomodated b c show ?thesis by blast
qed

lemma second_slot_preconditions:
  "is_locked (page_version (begin_insert suffix_page1))"
  "is_inserting (page_version (begin_insert suffix_page1))"
  "get_key_count (page_version (begin_insert suffix_page1)) = 1 + 1"
  "(1::nat) < kMaxKeys"
  "0 < (1::nat) \<longrightarrow> unat (offsets (begin_insert suffix_page1) (1 - 1)) \<le> kDataSize div 16"
  by (simp_all add: begin_insert_def suffix_page1_fields is_locked_def is_inserting_def
      get_key_count_def version0_def page_consts)

section \<open>Reserving a slot\<close>

text \<open>
  Where the aligned record size stays below \<open>2 ^ 16\<close>: on a border page with the page
  lock held, the inserting bit set, a version key count of \<open>index + 1\<close> and
  \<open>can_accomodate\<close> true for the new record, for a slot \<open>index < kMaxKeys\<close>, a remaining
  length of at most 254, a suffix buffer that holds the suffix, and a previous offset
  inside the data region, \<open>reserve_record_space\<close> returns a page whose slot \<open>index\<close>
  stores the given slice, remaining length, payload length and owner id; 16 times
  its offset plus the aligned record size is 16 times the previous slot's offset
  (\<open>kDataSize\<close> for slot 0); the suffix bytes stand at the start of its record; and no
  other byte of \<open>data\<close> is written, so the payload bytes are not.
\<close>

lemma reserve_record_space_below_wrap_stores_slot:
  assumes "is_locked (page_version p)" and "is_inserting (page_version p)"
    and "get_key_count (page_version p) = index + 1"
    and "can_accomodate p index remaining_length payload_count = Inr True"
    and "remaining_length \<le> kKeyLengthMax" and "index < kMaxKeys"
    and "align16 (unat remaining_length - sizeof_KeySlice + unat payload_count) < 2 ^ 16"
    and "unat remaining_length - sizeof_KeySlice \<le> length suffix"
    and "0 < index \<longrightarrow> unat (offsets p (index - 1)) \<le> kDataSize div 16"
  shows "\<exists>p'. reserve_record_space p index owner ks suffix remaining_length payload_count = Inr p'
     \<and> slices p' index = ks
     \<and> remaining_key_length p' index = remaining_length
     \<and> payload_length p' index = payload_count
     \<and> owner_ids p' index = owner
     \<and> 16 * unat (offsets p' index)
           + align16 (unat remaining_length - sizeof_KeySlice + unat payload_count)
         = (if index = 0 then kDataSize else 16 * unat (offsets p (index - 1)))
     \<and> (\<forall>k. k < unat remaining_length - sizeof_KeySlice \<longrightarrow>
            data p' (16 * unat (offsets p' index) + k) = suffix ! k)
     \<and> (\<forall>a. \<not> (16 * unat (offsets p' index) \<le> a
                 \<and> a < 16 * unat (offsets p' index) + (unat remaining_length - sizeof_KeySlice))
            \<longrightarrow> data p' a = data p a)"
proof -
  from assms(9) have prev: "0 < index \<Longrightarrow> unat (offsets p (index - 1)) \<le> kDataSize div 16"
    by simp
  from reserve_record_space_Inr [OF assms(1-8) prev, of owner ks]
  obtain p' off where
    res: "reserve_record_space p index owner ks suffix remaining_length payload_count = Inr p'"
    and sum: "16 * off + align16 (unat remaining_length - sizeof_KeySlice + unat payload_count)
          = (if index = 0 then kDataSize else 16 * unat (offsets p (index - 1)))"
    and offs: "offsets p' = (offsets p)(index := of_nat off)" and uoff: "unat (of_nat off :: 8 word) = off"
    and meta: "slices p' = (slices p)(index := ks)"
      "remaining_key_length p' = (remaining_key_length p)(index := remaining_length)"
      "payload_length p' = (payload_length p)(index := payload_count)"
      "owner_ids p' = (owner_ids p)(index := owner)"
    and dat: "data p' = (\<lambda>a. if 16 * off \<le> a \<and> a < 16 * off + (unat remaining_length - sizeof_KeySlice)
                         then suffix ! (a - 16 * off) else data p a)"
    by blast
  define sl where "sl = unat remaining_length - sizeof_KeySlice"
  have o: "unat (offsets p' index) = off"
    using offs uoff by simp
  have dat': "data p' = (\<lambda>a. if 16 * off \<le> a \<and> a < 16 * off + sl
                         then suffix ! (a - 16 * off) else data p a)"
    using dat by (simp only: sl_def)
  have copied: "\<forall>k. k < sl \<longrightarrow> data p' (16 * off + k) = suffix ! k"
    by (simp add: dat')
  have kept: "\<forall>a. \<not> (16 * off \<le> a \<and> a < 16 * off + sl) \<longrightarrow> data p' a = data p a"
    by (simp add: dat')
  from res sum meta copied kept show ?thesis
    unfolding sl_def o [symmetric] by (intro exI [of _ p']) simp
qed

text \<open>
  C4. The claim says that, with the four asserted conditions, the new slot's offset
  is the previous offset minus the aligned record size and the suffix is copied
  into its record. The aligned size is truncated to 16 bits (the defect of C3), so
  with a key of 254 bytes and a payload of 65280 bytes every assertion holds while
  the size 65536 is taken as 0: on \<open>suffix_page1\<close> the new slot gets the offset of the
  previous slot, and on \<open>small_page1\<close> the copy of the 246 suffix bytes runs past the
  end of the data region.
\<close>

theorem reserve_record_space_wrapped_size:
  "is_locked (page_version (begin_insert suffix_page1))
   \<and> is_inserting (page_version (begin_insert suffix_page1))
   \<and> get_key_count (page_version (begin_insert suffix_page1)) = 1 + 1
   \<and> can_accomodate (begin_insert suffix_page1) 1 254 65280 = Inr True
   \<and> reserve_record_space (begin_insert suffix_page1) 1 7 99 (replicate 246 66) 254 65280
       = Inr wrap_page
   \<and> 16 * unat (offsets wrap_page 1)
         + align16 (unat (254 :: 8 word) - sizeof_KeySlice + unat (65280 :: 16 word))
       \<noteq> 16 * unat (offsets (begin_insert suffix_page1) (1 - 1))
   \<and> is_locked (page_version (begin_insert small_page1))
   \<and> is_inserting (page_version (begin_insert small_page1))
   \<and> get_key_count (page_version (begin_insert small_page1)) = 1 + 1
   \<and> can_accomodate (begin_insert small_page1) 1 254 65280 = Inr True
   \<and> reserve_record_space (begin_insert small_page1) 1 7 99 (replicate 246 66) 254 65280
       = Inl OutOfBounds"
proof -
  have a: "16 * unat (offsets wrap_page 1)
         + align16 (unat (254 :: 8 word) - sizeof_KeySlice + unat (65280 :: 16 word))
       \<noteq> 16 * unat (offsets (begin_insert suffix_page1) (1 - 1))"
    using wrap_page_fields(1) suffix_page1_fields(1)
    by (simp add: begin_insert_def align16_def page_consts)
  have b: "is_locked (page_version (begin_insert small_page1))"
    "is_inserting (page_version (begin_insert small_page1))"
    "get_key_count (page_version (begin_insert small_page1)) = 1 + 1"
    "can_accomodate (begin_insert small_page1) 1 254 65280 = Inr True"
    "reserve_record_space (begin_insert small_page1) 1 7 99 (replicate 246 66) 254 65280
       = Inl OutOfBounds"
    unfolding small_page1_def by (simp_all add: page_ops page_consts example_pages)
  from second_slot_preconditions(1-3) wrap_accomodated wrap_page_reserved a b show ?thesis
    by blast
qed

section \<open>What reserving a slot leaves unchanged\<close>

text \<open>
  Where the aligned record size stays below \<open>2 ^ 16\<close>, under the conditions of the
  previous lemma and on a page whose earlier records all start at or after the
  record of slot \<open>index - 1\<close>: \<open>reserve_record_space\<close> changes the five metadata arrays
  at \<open>index\<close> only, leaves header, fences, parent link and version as they are, writes
  no byte outside the new record's range, leaves every byte at or after the start of
  an earlier record unchanged, and the new range ends at or before the start of
  every earlier record.
\<close>

lemma reserve_record_space_below_wrap_frame:
  assumes "is_locked (page_version p)" and "is_inserting (page_version p)"
    and "get_key_count (page_version p) = index + 1"
    and "can_accomodate p index remaining_length payload_count = Inr True"
    and "remaining_length \<le> kKeyLengthMax" and "index < kMaxKeys"
    and "align16 (unat remaining_length - sizeof_KeySlice + unat payload_count) < 2 ^ 16"
    and "unat remaining_length - sizeof_KeySlice \<le> length suffix"
    and "0 < index \<longrightarrow> unat (offsets p (index - 1)) \<le> kDataSize div 16"
    and "\<forall>j. j < index \<longrightarrow> unat (offsets p (index - 1)) \<le> unat (offsets p j)"
  shows "\<exists>p'. reserve_record_space p index owner ks suffix remaining_length payload_count = Inr p'
     \<and> (\<forall>j. j \<noteq> index \<longrightarrow>
            slices p' j = slices p j \<and> remaining_key_length p' j = remaining_key_length p j
            \<and> payload_length p' j = payload_length p j \<and> offsets p' j = offsets p j
            \<and> owner_ids p' j = owner_ids p j)
     \<and> header p' = header p \<and> low_fence p' = low_fence p \<and> high_fence p' = high_fence p
     \<and> in_layer_parent p' = in_layer_parent p \<and> page_version p' = page_version p
     \<and> 16 * unat (offsets p' index)
           + align16 (unat remaining_length - sizeof_KeySlice + unat payload_count)
         = (if index = 0 then kDataSize else 16 * unat (offsets p (index - 1)))
     \<and> (\<forall>a. data p' a \<noteq> data p a \<longrightarrow>
            16 * unat (offsets p' index) \<le> a
            \<and> a < 16 * unat (offsets p' index)
                  + align16 (unat remaining_length - sizeof_KeySlice + unat payload_count))
     \<and> (\<forall>j a. j < index \<and> 16 * unat (offsets p j) \<le> a \<longrightarrow> data p' a = data p a)
     \<and> (\<forall>j. j < index \<longrightarrow>
            16 * unat (offsets p' index)
              + align16 (unat remaining_length - sizeof_KeySlice + unat payload_count)
            \<le> 16 * unat (offsets p' j))"
proof -
  from assms(9) have prev: "0 < index \<Longrightarrow> unat (offsets p (index - 1)) \<le> kDataSize div 16"
    by simp
  define sl where "sl = unat remaining_length - sizeof_KeySlice"
  define size where "size = align16 (sl + unat payload_count)"
  from reserve_record_space_Inr [OF assms(1-8) prev, of owner ks]
  obtain p' off where
    res: "reserve_record_space p index owner ks suffix remaining_length payload_count = Inr p'"
    and sum: "16 * off + size = (if index = 0 then kDataSize else 16 * unat (offsets p (index - 1)))"
    and offs: "offsets p' = (offsets p)(index := of_nat off)" and uoff: "unat (of_nat off :: 8 word) = off"
    and meta: "slices p' = (slices p)(index := ks)"
      "remaining_key_length p' = (remaining_key_length p)(index := remaining_length)"
      "payload_length p' = (payload_length p)(index := payload_count)"
      "owner_ids p' = (owner_ids p)(index := owner)"
    and dat: "data p' = (\<lambda>a. if 16 * off \<le> a \<and> a < 16 * off + sl
                         then suffix ! (a - 16 * off) else data p a)"
    and base: "header p' = header p" "low_fence p' = low_fence p" "high_fence p' = high_fence p"
      "in_layer_parent p' = in_layer_parent p" "page_version p' = page_version p"
    unfolding size_def sl_def by blast
  have o: "unat (offsets p' index) = off"
    using offs uoff by simp
  have sl_le: "sl \<le> size"
    using align16_props [of "sl + unat payload_count"] by (simp add: size_def)
  have others: "\<forall>j. j \<noteq> index \<longrightarrow>
            slices p' j = slices p j \<and> remaining_key_length p' j = remaining_key_length p j
            \<and> payload_length p' j = payload_length p j \<and> offsets p' j = offsets p j
            \<and> owner_ids p' j = owner_ids p j"
    by (simp add: meta offs)
  have changed: "\<forall>a. data p' a \<noteq> data p a \<longrightarrow> 16 * off \<le> a \<and> a < 16 * off + size"
    using sl_le by (auto simp: dat)
  have below: "\<And>j. j < index \<Longrightarrow> 16 * off + size \<le> 16 * unat (offsets p j)"
  proof -
    fix j assume j: "j < index"
    then have "index \<noteq> 0" by simp
    with sum have "16 * off + size = 16 * unat (offsets p (index - 1))" by simp
    moreover from assms(10) j have "unat (offsets p (index - 1)) \<le> unat (offsets p j)" by blast
    ultimately show "16 * off + size \<le> 16 * unat (offsets p j)" by simp
  qed
  have old_kept: "\<forall>j a. j < index \<and> 16 * unat (offsets p j) \<le> a \<longrightarrow> data p' a = data p a"
  proof (intro allI impI)
    fix j a assume h: "j < index \<and> 16 * unat (offsets p j) \<le> a"
    with below [of j] have "16 * off + size \<le> a" by simp
    with changed show "data p' a = data p a" by force
  qed
  have disjoint: "\<forall>j. j < index \<longrightarrow> 16 * off + size \<le> 16 * unat (offsets p' j)"
    using below by (simp add: offs)
  from res others base sum changed old_kept disjoint show ?thesis
    unfolding size_def sl_def o [symmetric] by (intro exI [of _ p']) simp
qed

text \<open>
  C8. The claim says that \<open>reserve_record_space\<close> leaves the heap bytes of all earlier
  records unchanged. With the truncated record size (the defect of C3) it does not:
  for a key of 254 bytes and a payload of 65280 bytes on \<open>suffix_page1\<close> every assertion
  holds, the record size is taken as 0, the new slot gets offset 1, the offset of
  slot 0, and the 246 suffix bytes overwrite the record of slot 0, whose first byte
  (position 16) changes from 65 to 66.
\<close>

theorem reserve_record_space_overwrites_previous_record:
  "is_locked (page_version (begin_insert suffix_page1))
   \<and> is_inserting (page_version (begin_insert suffix_page1))
   \<and> get_key_count (page_version (begin_insert suffix_page1)) = 1 + 1
   \<and> can_accomodate (begin_insert suffix_page1) 1 254 65280 = Inr True
   \<and> (254 :: 8 word) \<le> kKeyLengthMax
   \<and> reserve_record_space (begin_insert suffix_page1) 1 7 99 (replicate 246 66) 254 65280
       = Inr wrap_page
   \<and> 16 * unat (offsets (begin_insert suffix_page1) 0) = 16
   \<and> data (begin_insert suffix_page1) 16 = 65
   \<and> data wrap_page 16 = 66"
proof -
  have a: "(254 :: 8 word) \<le> kKeyLengthMax"
    by (simp add: page_consts)
  have b: "16 * unat (offsets (begin_insert suffix_page1) 0) = 16"
    "data (begin_insert suffix_page1) 16 = 65"
    using suffix_page1_fields(1,4) by (simp_all add: begin_insert_def)
  from second_slot_preconditions(1-3) wrap_accomodated a wrap_page_reserved b wrap_page_fields(2)
  show ?thesis by blast
qed


section \<open>Searching a border page\<close>

text \<open>
  C1. The claim says that \<open>find_key\<close> compares the search suffix with the record of
  the slot it has reached, at \<open>data\<close> position 16 times \<open>offsets i\<close>. The source calls
  \<^verbatim>\<open>get_record(offsets_[i])\<close>, so it compares with the record of the slot whose
  \<^emph>\<open>number\<close> is \<open>offsets i\<close>. On \<open>suffix_page\<close>, which two calls of
  \<open>reserve_record_space\<close> build, slot 0 has slice 1234, remaining length 9 and its
  suffix byte 65 at position 16; \<open>offsets 0\<close> is 1 and \<open>offsets 1\<close> is 0, so the
  comparison reads position 0, the suffix 66 of slot 1. The search for the key that
  slot 0 holds returns \<open>kMaxKeys\<close>, and the search for the same slice with suffix 66
  returns slot 0.
\<close>

theorem find_key_compares_wrong_record:
  "reserve_record_space (begin_insert suffix_page1) 1 7 99 [66] 9 0 = Inr suffix_page
   \<and> get_key_count (page_version suffix_page) = 2
   \<and> slices suffix_page 0 = 1234 \<and> remaining_key_length suffix_page 0 = 9
   \<and> \<not> does_point_to_layer suffix_page 0
   \<and> get_record suffix_page 0 = Inr 16
   \<and> memcmp_eq (data suffix_page) 16 [65] (unat (9 :: 8 word) - sizeof_KeySlice) = Inr True
   \<and> find_key suffix_page (page_version suffix_page) 1234 [65] 9 = Inr kMaxKeys
   \<and> memcmp_eq (data suffix_page) 16 [66] (unat (9 :: 8 word) - sizeof_KeySlice) = Inr False
   \<and> find_key suffix_page (page_version suffix_page) 1234 [66] 9 = Inr 0
   \<and> get_record suffix_page (unat (offsets suffix_page 0)) = Inr 0"
proof -
  have a: "\<not> does_point_to_layer suffix_page 0" "get_record suffix_page 0 = Inr 16"
    "memcmp_eq (data suffix_page) 16 [65] (unat (9 :: 8 word) - sizeof_KeySlice) = Inr True"
    "memcmp_eq (data suffix_page) 16 [66] (unat (9 :: 8 word) - sizeof_KeySlice) = Inr False"
    "get_record suffix_page (unat (offsets suffix_page 0)) = Inr 0"
    using suffix_page_fields
    by (simp_all add: does_point_to_layer_def get_record_def memcmp_eq_def page_consts)
  have b: "find_key suffix_page (page_version suffix_page) 1234 [65] 9 = Inr kMaxKeys"
    using suffix_page_search(1) by (simp add: page_consts)
  from suffix_page_reserved suffix_page_fields(9,3,5) a b suffix_page_search(2)
  show ?thesis by blast
qed

text \<open>
  C9. Whenever \<open>find_key\<close>, \<open>find_key_normalized\<close> or \<open>find_key_for_reserve\<close> returns an
  index, it is \<open>kMaxKeys\<close> or strictly below the key count (the low 8 bits of the
  version's count) or the \<open>to_index\<close> argument, and that bound is at most \<open>kMaxKeys\<close>;
  \<open>find_key_for_reserve\<close> returns \<open>kMaxKeys\<close> exactly with \<open>kNotFound\<close>. With
  \<open>from_index \<le> to_index \<le> kMaxKeys\<close>, \<open>find_key_normalized\<close> always returns an index.
\<close>

theorem find_key_index_in_range:
  "(find_key p sv ks suffix remaining = Inr r \<longrightarrow>
      (r = kMaxKeys \<or> r < get_key_count sv mod 256) \<and> get_key_count sv mod 256 \<le> kMaxKeys)
   \<and> (find_key_normalized p from_index to_index ks = Inr r' \<longrightarrow>
      (r' = kMaxKeys \<or> (from_index \<le> r' \<and> r' < to_index)) \<and> to_index \<le> kMaxKeys)
   \<and> (find_key_for_reserve p from_index to_index ks suffix remaining
        = Inr (FindKeyForReserveResult r'' mt) \<longrightarrow>
      ((r'' = kMaxKeys \<and> mt = kNotFound) \<or> (from_index \<le> r'' \<and> r'' < to_index \<and> mt \<noteq> kNotFound))
      \<and> to_index \<le> kMaxKeys)
   \<and> (from_index \<le> to_index \<and> to_index \<le> kMaxKeys \<longrightarrow>
        (\<exists>i. find_key_normalized p from_index to_index ks = Inr i))"
proof -
  have a: "find_key p sv ks suffix remaining = Inr r \<longrightarrow>
      (r = kMaxKeys \<or> r < get_key_count sv mod 256) \<and> get_key_count sv mod 256 \<le> kMaxKeys"
  proof
    assume h: "find_key p sv ks suffix remaining = Inr r"
    then have kc: "get_key_count sv mod 256 \<le> kMaxKeys"
      by (simp add: find_key_def Let_def split: if_splits)
    from h have "for_loop (find_key_body p ks suffix remaining) (get_key_count sv mod 256) kMaxKeys 0 = Inr r"
      by (simp add: find_key_def Let_def split: if_splits)
    from for_loop_result [OF this] have "r = kMaxKeys \<or> r < get_key_count sv mod 256"
      by (auto dest: find_key_body_Return)
    with kc show "(r = kMaxKeys \<or> r < get_key_count sv mod 256) \<and> get_key_count sv mod 256 \<le> kMaxKeys"
      by simp
  qed
  have b: "find_key_normalized p from_index to_index ks = Inr r' \<longrightarrow>
      (r' = kMaxKeys \<or> (from_index \<le> r' \<and> r' < to_index)) \<and> to_index \<le> kMaxKeys"
  proof
    assume h: "find_key_normalized p from_index to_index ks = Inr r'"
    then have kc: "to_index \<le> kMaxKeys"
      by (simp add: find_key_normalized_def split: if_splits)
    from h have "for_loop (find_key_normalized_body p ks) to_index kMaxKeys from_index = Inr r'"
      by (simp add: find_key_normalized_def split: if_splits)
    from for_loop_result [OF this] have "r' = kMaxKeys \<or> (from_index \<le> r' \<and> r' < to_index)"
      by (auto dest: find_key_normalized_body_Return)
    with kc show "(r' = kMaxKeys \<or> (from_index \<le> r' \<and> r' < to_index)) \<and> to_index \<le> kMaxKeys"
      by simp
  qed
  have c: "find_key_for_reserve p from_index to_index ks suffix remaining
        = Inr (FindKeyForReserveResult r'' mt) \<longrightarrow>
      ((r'' = kMaxKeys \<and> mt = kNotFound) \<or> (from_index \<le> r'' \<and> r'' < to_index \<and> mt \<noteq> kNotFound))
      \<and> to_index \<le> kMaxKeys"
  proof
    assume h: "find_key_for_reserve p from_index to_index ks suffix remaining
        = Inr (FindKeyForReserveResult r'' mt)"
    then have kc: "to_index \<le> kMaxKeys"
      by (simp add: find_key_for_reserve_def split: if_splits)
    from h have "for_loop (find_key_for_reserve_body p ks suffix remaining) to_index
         (FindKeyForReserveResult kMaxKeys kNotFound) from_index = Inr (FindKeyForReserveResult r'' mt)"
      by (simp add: find_key_for_reserve_def split: if_splits)
    from for_loop_result [OF this]
    have "(r'' = kMaxKeys \<and> mt = kNotFound) \<or> (from_index \<le> r'' \<and> r'' < to_index \<and> mt \<noteq> kNotFound)"
      by (auto dest: find_key_for_reserve_body_Return)
    with kc show "((r'' = kMaxKeys \<and> mt = kNotFound) \<or> (from_index \<le> r'' \<and> r'' < to_index \<and> mt \<noteq> kNotFound))
      \<and> to_index \<le> kMaxKeys"
      by simp
  qed
  have d: "from_index \<le> to_index \<and> to_index \<le> kMaxKeys \<longrightarrow>
        (\<exists>i. find_key_normalized p from_index to_index ks = Inr i)"
  proof
    assume h: "from_index \<le> to_index \<and> to_index \<le> kMaxKeys"
    have "\<And>i. \<exists>x. for_loop (find_key_normalized_body p ks) to_index kMaxKeys i = Inr x"
    proof -
      fix i
      show "\<exists>x. for_loop (find_key_normalized_body p ks) to_index kMaxKeys i = Inr x"
      proof (induction "to_index - i" arbitrary: i)
        case 0
        then show ?case by (simp add: for_loop_stop)
      next
        case (Suc k)
        then have lt: "i < to_index" by simp
        show ?case
        proof (cases "find_key_normalized_body p ks i = Continue")
          case True
          from Suc have "k = to_index - Suc i" by simp
          from Suc(1) [OF this] lt True show ?thesis by (simp add: for_loop_Continue)
        next
          case False
          then have "find_key_normalized_body p ks i = Return i"
            by (simp add: find_key_normalized_body_def split: if_splits)
          with lt show ?thesis by (simp add: for_loop_Return)
        qed
      qed
    qed
    with h show "\<exists>i. find_key_normalized p from_index to_index ks = Inr i"
      by (simp add: find_key_normalized_def)
  qed
  from a b c d show ?thesis by blast
qed

theorem find_key_index_in_range_witness:
  "find_key shared_slice_page (page_version shared_slice_page) 0x6100000000000000 [] 8 = Inr 2
   \<and> (2::nat) < get_key_count (page_version shared_slice_page) mod 256
   \<and> get_key_count (page_version shared_slice_page) mod 256 \<le> kMaxKeys
   \<and> find_key_normalized shared_slice_page 0 3 0x6100000000000000 = Inr 2
   \<and> (0::nat) \<le> 3 \<and> (3::nat) \<le> kMaxKeys
   \<and> find_key_for_reserve shared_slice_page 0 3 0x6100000000000000 [] 8
       = Inr (FindKeyForReserveResult 2 kExactMatchLocalRecord)"
proof -
  have k: "(2::nat) < get_key_count (page_version shared_slice_page) mod 256"
    "(0::nat) \<le> 3" "(3::nat) \<le> kMaxKeys"
    using shared_slice_page_fields(9) by (simp_all add: page_consts)
  from find_key_index_in_range
    [of shared_slice_page "page_version shared_slice_page" "0x6100000000000000" "[]" 8 2
        0 3 2 2 kExactMatchLocalRecord]
    shared_slice_page_search
  have "get_key_count (page_version shared_slice_page) mod 256 \<le> kMaxKeys"
    by blast
  with k shared_slice_page_search show ?thesis by blast
qed

section \<open>The pages that the operations build\<close>

text \<open>What each page operation changes of the slices, lengths, key count and fences.\<close>

lemma reserve_record_space_result:
  "reserve_record_space p index owner ks suffix remaining_length payload_count = Inr p' \<Longrightarrow>
   slices p' = (slices p)(index := ks)
   \<and> remaining_key_length p' = (remaining_key_length p)(index := remaining_length)
   \<and> page_version p' = page_version p
   \<and> low_fence p' = low_fence p \<and> high_fence p' = high_fence p
   \<and> index < kMaxKeys \<and> get_key_count (page_version p) = index + 1"
  unfolding reserve_record_space_def Let_def
  by (auto split: if_splits sum.splits)

lemma set_next_layer_result:
  "set_next_layer is_keylocked p index pointer = Inr p' \<Longrightarrow>
   slices p' = slices p
   \<and> remaining_key_length p' = (remaining_key_length p)(index := kKeyLengthNextLayer)
   \<and> sizeof_KeySlice < unat (remaining_key_length p index)
   \<and> page_version p' = page_version p
   \<and> low_fence p' = low_fence p \<and> high_fence p' = high_fence p"
  unfolding set_next_layer_def Let_def
  by (auto split: if_splits sum.splits)

lemma lock_result:
  "lock p = Some q \<Longrightarrow>
   slices q = slices p \<and> remaining_key_length q = remaining_key_length p
   \<and> get_key_count (page_version q) = get_key_count (page_version p)
   \<and> low_fence q = low_fence p \<and> high_fence q = high_fence p"
  by (auto simp: lock_def lock_version_def get_key_count_def split: if_splits option.splits)

lemma unlock_result:
  "slices (unlock p) = slices p \<and> remaining_key_length (unlock p) = remaining_key_length p
   \<and> get_key_count (page_version (unlock p)) = get_key_count (page_version p)
   \<and> low_fence (unlock p) = low_fence p \<and> high_fence (unlock p) = high_fence p"
  by (simp add: unlock_def unlock_version_def get_key_count_def)

text \<open>
  A scan by \<open>find_key_for_reserve\<close> that answers \<open>kNotFound\<close> has passed every slot: each
  slot of the searched slice has another remaining length, and is short when the
  searched key is long.
\<close>

lemma for_loop_fell_through:
  "for_loop body n after i = Inr r \<Longrightarrow> \<forall>k. body k \<noteq> Break \<Longrightarrow> \<forall>k. body k \<noteq> Return r \<Longrightarrow>
   i \<le> j \<Longrightarrow> j < n \<Longrightarrow> body j = Continue"
proof (induction body n after i rule: for_loop.induct)
  case (1 body n after i)
  from 1(5,6) have lt: "i < n" by simp
  show ?case
  proof (cases "body i")
    case Continue
    show ?thesis
    proof (cases "j = i")
      case True
      with Continue show ?thesis by simp
    next
      case False
      with 1(5) have le: "Suc i \<le> j" by simp
      from lt Continue 1(2) have "for_loop body n after (Suc i) = Inr r"
        by (simp add: for_loop_Continue)
      from 1(1) [OF lt Continue this 1(3,4) le 1(6)] show ?thesis .
    qed
  next
    case Break
    with 1(3) show ?thesis by simp
  next
    case (Return x)
    with lt 1(2) have "x = r" by (simp add: for_loop_Return)
    with Return 1(4) show ?thesis by simp
  next
    case (Abort e)
    with lt 1(2) show ?thesis by (simp add: for_loop_Abort)
  qed
qed

lemma find_key_for_reserve_body_no_Break:
  "find_key_for_reserve_body p ks suffix remaining j \<noteq> Break"
  by (auto simp: find_key_for_reserve_body_def split: if_splits sum.splits)

lemma find_key_for_reserve_body_Continue:
  "find_key_for_reserve_body p ks suffix remaining j = Continue \<Longrightarrow> slices p j = ks \<Longrightarrow>
   remaining_key_length p j \<noteq> remaining
   \<and> \<not> (long_key_slot p j \<and> sizeof_KeySlice < unat remaining)"
  by (auto simp: find_key_for_reserve_body_def long_key_slot_def split: if_splits sum.splits)

lemma not_found_no_clash:
  assumes "find_key_for_reserve p 0 n ks suffix remaining = Inr (FindKeyForReserveResult r kNotFound)"
    and "j < n" and "slices p j = ks"
  shows "remaining_key_length p j \<noteq> remaining
    \<and> \<not> (long_key_slot p j \<and> sizeof_KeySlice < unat remaining)"
proof -
  from assms(1) have run: "for_loop (find_key_for_reserve_body p ks suffix remaining) n
      (FindKeyForReserveResult kMaxKeys kNotFound) 0 = Inr (FindKeyForReserveResult r kNotFound)"
    by (simp add: find_key_for_reserve_def split: if_splits)
  have nb: "\<forall>k. find_key_for_reserve_body p ks suffix remaining k \<noteq> Break"
    by (simp add: find_key_for_reserve_body_no_Break)
  have nr: "\<forall>k. find_key_for_reserve_body p ks suffix remaining k
      \<noteq> Return (FindKeyForReserveResult r kNotFound)"
    using find_key_for_reserve_body_Return [of p ks suffix remaining _ r kNotFound] by blast
  from for_loop_fell_through [OF run nb nr _ assms(2)]
  have "find_key_for_reserve_body p ks suffix remaining j = Continue" by simp
  from find_key_for_reserve_body_Continue [OF this assms(3)] show ?thesis .
qed

text \<open>The slice invariant holds of every built page, whose key count is at most \<open>kMaxKeys\<close>.\<close>

lemma slice_invariant_iff:
  "slice_invariant p n \<longleftrightarrow>
   (\<forall>i j. i < n \<and> j < n \<and> i \<noteq> j \<and> slices p i = slices p j \<longrightarrow>
      remaining_key_length p i \<noteq> remaining_key_length p j
      \<and> \<not> (long_key_slot p i \<and> long_key_slot p j))"
  by (auto simp: slice_invariant_def list_all_iff)

lemma slice_invariant_cong:
  "slices q = slices p \<Longrightarrow> remaining_key_length q = remaining_key_length p \<Longrightarrow>
   slice_invariant q n = slice_invariant p n"
  by (simp add: slice_invariant_iff long_key_slot_def)

lemma slice_invariant_reserved:
  assumes inv: "slice_invariant p n"
    and nf: "find_key_for_reserve p 0 n ks suffix remaining
       = Inr (FindKeyForReserveResult r kNotFound)"
    and s: "slices p' = (slices p)(n := ks)"
    and l: "remaining_key_length p' = (remaining_key_length p)(n := remaining)"
  shows "slice_invariant p' (Suc n)"
  unfolding slice_invariant_iff
proof (intro allI impI)
  fix i j
  assume h: "i < Suc n \<and> j < Suc n \<and> i \<noteq> j \<and> slices p' i = slices p' j"
  have long_new: "long_key_slot p' n = (sizeof_KeySlice < unat remaining)"
    by (simp add: long_key_slot_def l)
  have old: "\<And>k. k < n \<Longrightarrow> slices p' k = slices p k
      \<and> remaining_key_length p' k = remaining_key_length p k
      \<and> long_key_slot p' k = long_key_slot p k"
    by (simp add: s l long_key_slot_def)
  consider (both) "i < n" "j < n" | (inew) "i = n" "j < n" | (jnew) "j = n" "i < n"
    using h by linarith
  then show "remaining_key_length p' i \<noteq> remaining_key_length p' j
      \<and> \<not> (long_key_slot p' i \<and> long_key_slot p' j)"
  proof cases
    case both
    from inv have "\<forall>i j. i < n \<and> j < n \<and> i \<noteq> j \<and> slices p i = slices p j \<longrightarrow>
      remaining_key_length p i \<noteq> remaining_key_length p j
      \<and> \<not> (long_key_slot p i \<and> long_key_slot p j)"
      by (simp only: slice_invariant_iff)
    with both h old [of i] old [of j] show ?thesis by metis
  next
    case inew
    from h inew old [of j] have "slices p j = ks" by (simp add: s)
    from not_found_no_clash [OF nf inew(2) this] inew old [of j] long_new show ?thesis
      by (auto simp: l)
  next
    case jnew
    from h jnew old [of i] have "slices p i = ks" by (simp add: s)
    from not_found_no_clash [OF nf jnew(2) this] jnew old [of i] long_new show ?thesis
      by (auto simp: l)
  qed
qed

lemma slice_invariant_next_layer:
  assumes inv: "slice_invariant p n"
    and s: "slices p' = slices p"
    and l: "remaining_key_length p' = (remaining_key_length p)(index := kKeyLengthNextLayer)"
    and was_long: "sizeof_KeySlice < unat (remaining_key_length p index)"
  shows "slice_invariant p' n"
  unfolding slice_invariant_iff
proof (intro allI impI)
  fix i j
  assume h: "i < n \<and> j < n \<and> i \<noteq> j \<and> slices p' i = slices p' j"
  from inv have "\<forall>i j. i < n \<and> j < n \<and> i \<noteq> j \<and> slices p i = slices p j \<longrightarrow>
      remaining_key_length p i \<noteq> remaining_key_length p j
      \<and> \<not> (long_key_slot p i \<and> long_key_slot p j)"
    by (simp only: slice_invariant_iff)
  with h s have o: "remaining_key_length p i \<noteq> remaining_key_length p j"
    "\<not> (long_key_slot p i \<and> long_key_slot p j)"
    by metis+
  have li: "long_key_slot p index" "long_key_slot p' index"
    using was_long by (simp_all add: long_key_slot_def l kKeyLengthNextLayer_def sizeof_KeySlice_def)
  have other: "\<And>k. k \<noteq> index \<Longrightarrow> remaining_key_length p' k = remaining_key_length p k
      \<and> long_key_slot p' k = long_key_slot p k"
    by (simp add: l long_key_slot_def)
  have short_differs: "\<And>k. \<not> long_key_slot p k \<Longrightarrow> remaining_key_length p k \<noteq> kKeyLengthNextLayer"
    by (auto simp: long_key_slot_def kKeyLengthNextLayer_def sizeof_KeySlice_def)
  show "remaining_key_length p' i \<noteq> remaining_key_length p' j
      \<and> \<not> (long_key_slot p' i \<and> long_key_slot p' j)"
  proof (cases "i = index")
    case True
    with h have jn: "j \<noteq> index" by simp
    from True o li have "\<not> long_key_slot p j" by simp
    with True jn other [of j] short_differs [of j] show ?thesis
      by (auto simp: l)
  next
    case False
    show ?thesis
    proof (cases "j = index")
      case True
      from True o li have "\<not> long_key_slot p i" by simp
      with True False other [of i] short_differs [of i] show ?thesis
        by (auto simp: l)
    next
      case jn: False
      with False o other [of i] other [of j] show ?thesis by simp
    qed
  qed
qed

lemma built_invariant:
  "border_page_built is_keylocked slice_check p \<Longrightarrow>
   get_key_count (page_version p) \<le> kMaxKeys
   \<and> slice_invariant p (get_key_count (page_version p))"
proof (induction rule: border_page_built.induct)
  case (fresh p)
  then show ?case by (simp add: slice_invariant_def)
next
  case (locked p q)
  from lock_result [OF locked(2)] locked(3) show ?case
    by (simp add: slice_invariant_cong [of q p])
next
  case (unlocked p)
  from unlock_result [of p] unlocked(2) show ?case
    by (simp add: slice_invariant_cong [of "unlock p" p])
next
  case (reserved p kslice suffix remaining_length r owner payload_count p')
  let ?n = "get_key_count (page_version p)"
  from reserve_record_space_result [OF reserved(4)]
  have s: "slices p' = (slices (begin_insert p))(?n := kslice)"
    and l: "remaining_key_length p' = (remaining_key_length (begin_insert p))(?n := remaining_length)"
    and v: "page_version p' = page_version (begin_insert p)"
    and lt: "?n < kMaxKeys"
    by simp_all
  have b: "slices (begin_insert p) = slices p"
    "remaining_key_length (begin_insert p) = remaining_key_length p"
    "get_key_count (page_version (begin_insert p)) = Suc ?n"
    by (simp_all add: begin_insert_def get_key_count_def)
  from reserved(5) have inv: "slice_invariant p ?n" by simp
  from slice_invariant_reserved [OF inv reserved(3) s [unfolded b] l [unfolded b]]
  have "slice_invariant p' (Suc ?n)" .
  with v b lt show ?case by simp
next
  case (next_layer p index pointer p')
  from set_next_layer_result [OF next_layer(2)]
  have s: "slices p' = slices p"
    and l: "remaining_key_length p' = (remaining_key_length p)(index := kKeyLengthNextLayer)"
    and w: "sizeof_KeySlice < unat (remaining_key_length p index)"
    and v: "page_version p' = page_version p"
    by simp_all
  from next_layer(3) have inv: "slice_invariant p (get_key_count (page_version p))" by simp
  from slice_invariant_next_layer [OF inv s l w] next_layer(3) v show ?case by simp
qed

text \<open>The example pages are built pages.\<close>

lemma border_page_built_reserve:
  "border_page_built is_keylocked slice_check p \<Longrightarrow> get_key_count (page_version p) = n \<Longrightarrow>
   slice_check p ks \<Longrightarrow>
   find_key_for_reserve p 0 n ks suffix remaining_length
     = Inr (FindKeyForReserveResult r kNotFound) \<Longrightarrow>
   reserve_record_space (begin_insert p) n owner ks suffix remaining_length payload_count
     = Inr p' \<Longrightarrow>
   border_page_built is_keylocked slice_check p'"
  using border_page_built.reserved [of is_keylocked slice_check p ks suffix remaining_length r
      owner payload_count p']
  by simp

lemma shared_slice_page_counts:
  "get_key_count (page_version empty_border_page) = 0"
  "get_key_count (page_version shared_slice_page1) = 1"
  "get_key_count (page_version shared_slice_page2) = 2"
  unfolding shared_slice_page2_def shared_slice_page1_def
  by (simp_all add: page_ops page_consts example_pages)

lemma shared_slice_page_prefix_fields:
  "slices shared_slice_page1 0 = 0x6100000000000000"
  "remaining_key_length shared_slice_page1 0 = 1"
  "slices shared_slice_page2 0 = 0x6100000000000000"
  "slices shared_slice_page2 1 = 0x6100000000000000"
  "remaining_key_length shared_slice_page2 0 = 1"
  "remaining_key_length shared_slice_page2 1 = 2"
  unfolding shared_slice_page2_def shared_slice_page1_def
  by (simp_all add: page_ops page_consts example_pages)

lemma shared_slice_page_fences:
  "get_low_fence empty_border_page = 0" "get_high_fence empty_border_page = - 1"
  "get_low_fence shared_slice_page1 = 0" "get_high_fence shared_slice_page1 = - 1"
  "get_low_fence shared_slice_page2 = 0" "get_high_fence shared_slice_page2 = - 1"
  "get_low_fence shared_slice_page = 0" "get_high_fence shared_slice_page = - 1"
  unfolding shared_slice_page_def shared_slice_page2_def shared_slice_page1_def
  by (simp_all add: page_ops page_consts example_pages get_low_fence_def get_high_fence_def)

lemma shared_slice_page_not_found:
  "find_key_for_reserve empty_border_page 0 0 0x6100000000000000 [] 1
     = Inr (FindKeyForReserveResult kMaxKeys kNotFound)"
  "find_key_for_reserve shared_slice_page1 0 1 0x6100000000000000 [] 2
     = Inr (FindKeyForReserveResult kMaxKeys kNotFound)"
  "find_key_for_reserve shared_slice_page2 0 2 0x6100000000000000 [] 8
     = Inr (FindKeyForReserveResult kMaxKeys kNotFound)"
  "find_key_for_reserve shared_slice_page 0 3 0x6100000000000000 [120] 9
     = Inr (FindKeyForReserveResult kMaxKeys kNotFound)"
  using shared_slice_page_prefix_fields shared_slice_page_fields
  by (simp_all add: find_key_for_reserve_def find_key_for_reserve_body_def
      for_loop.simps page_consts does_point_to_layer_def)

lemma shared_slice_within_fences:
  "within_fences empty_border_page 0x6100000000000000"
  "within_fences shared_slice_page1 0x6100000000000000"
  "within_fences shared_slice_page2 0x6100000000000000"
  "within_fences shared_slice_page 0x6100000000000000"
  using shared_slice_page_fences by (simp_all add: within_fences_def)

lemma shared_slice_page_built:
  "border_page_built is_keylocked within_fences shared_slice_page"
proof -
  have b0: "border_page_built is_keylocked within_fences empty_border_page"
    by (rule border_page_built.fresh) (rule shared_slice_page_counts(1))
  from border_page_built_reserve [OF b0 shared_slice_page_counts(1) shared_slice_within_fences(1)
      shared_slice_page_not_found(1) shared_slice_page_reserved(1)]
  have b1: "border_page_built is_keylocked within_fences shared_slice_page1" .
  from border_page_built_reserve [OF b1 shared_slice_page_counts(2) shared_slice_within_fences(2)
      shared_slice_page_not_found(2) shared_slice_page_reserved(2)]
  have b2: "border_page_built is_keylocked within_fences shared_slice_page2" .
  from border_page_built_reserve [OF b2 shared_slice_page_counts(3) shared_slice_within_fences(3)
      shared_slice_page_not_found(3) shared_slice_page_reserved(3)]
  show ?thesis .
qed

lemma mixed_slice_page_reserved:
  "reserve_record_space (begin_insert shared_slice_page) 3 7 0x6100000000000000 [120] 9 0
     = Inr mixed_slice_page"
  unfolding mixed_slice_page_def shared_slice_page_def shared_slice_page2_def shared_slice_page1_def
  by (simp add: page_ops page_consts example_pages)

lemma mixed_slice_page_fields:
  "slices mixed_slice_page 0 = 0x6100000000000000"
  "slices mixed_slice_page 1 = 0x6100000000000000"
  "slices mixed_slice_page 2 = 0x6100000000000000"
  "slices mixed_slice_page 3 = 0x6100000000000000"
  "remaining_key_length mixed_slice_page 0 = 1"
  "remaining_key_length mixed_slice_page 1 = 2"
  "remaining_key_length mixed_slice_page 2 = 8"
  "remaining_key_length mixed_slice_page 3 = 9"
  "get_key_count (page_version mixed_slice_page) = 4"
  unfolding mixed_slice_page_def shared_slice_page_def shared_slice_page2_def shared_slice_page1_def
  by (simp_all add: page_ops page_consts example_pages)

lemma mixed_slice_page_built:
  "border_page_built is_keylocked within_fences mixed_slice_page"
  by (rule border_page_built_reserve [OF shared_slice_page_built shared_slice_page_fields(9)
      shared_slice_within_fences(4) shared_slice_page_not_found(4) mixed_slice_page_reserved])

lemma duplicate_page_reserved:
  "reserve_record_space (begin_insert shared_slice_page1) 1 7 0x6100000000000000 [] 1 16
     = Inr duplicate_page"
  unfolding duplicate_page_def shared_slice_page1_def
  by (simp add: page_ops page_consts example_pages)

lemma duplicate_page_fields:
  "slices duplicate_page 0 = 0x6100000000000000"
  "slices duplicate_page 1 = 0x6100000000000000"
  "remaining_key_length duplicate_page 0 = 1"
  "remaining_key_length duplicate_page 1 = 1"
  "get_key_count (page_version duplicate_page) = 2"
  unfolding duplicate_page_def shared_slice_page1_def
  by (simp_all add: page_ops page_consts example_pages)







section \<open>Slots that share a slice\<close>

lemma for_loop_rounds_prefix:
  "i \<le> n \<Longrightarrow> \<exists>m. i \<le> m \<and> m \<le> n \<and> for_loop_rounds body n i = [i..<m]"
proof (induction body n i rule: for_loop_rounds.induct)
  case (1 body n i)
  show ?case
  proof (cases "i < n")
    case False
    then have "for_loop_rounds body n i = [i..<i]"
      by (simp add: for_loop_rounds.simps)
    with 1(2) show ?thesis by blast
  next
    case True
    show ?thesis
    proof (cases "body i = Continue")
      case c: True
      with True 1 obtain m where m: "Suc i \<le> m" "m \<le> n"
          "for_loop_rounds body n (Suc i) = [Suc i..<m]"
        by auto
      from True c have "for_loop_rounds body n i = i # for_loop_rounds body n (Suc i)"
        by (subst for_loop_rounds.simps) simp
      with m have "for_loop_rounds body n i = [i..<m]"
        by (simp add: upt_conv_Cons)
      with m show ?thesis by (intro exI [of _ m]) simp
    next
      case False
      with True have "for_loop_rounds body n i = [i..<Suc i]"
        by (subst for_loop_rounds.simps) (simp split: control.splits)
      with True show ?thesis by (intro exI [of _ "Suc i"]) simp
    qed
  qed
qed

lemma length_filter_upt_mono:
  "m \<le> n \<Longrightarrow> length (filter P [0..<m]) \<le> length (filter P [0..<n])"
proof -
  assume "m \<le> n"
  then have "[0..<n] = [0..<m] @ [m..<n]"
    by (metis le0 upt_add_eq_append le_add_diff_inverse)
  then show ?thesis by simp
qed

lemma slice_invariantD:
  "slice_invariant p n \<Longrightarrow> i < n \<Longrightarrow> j < n \<Longrightarrow> i \<noteq> j \<Longrightarrow> slices p i = slices p j \<Longrightarrow>
   remaining_key_length p i \<noteq> remaining_key_length p j
   \<and> \<not> (long_key_slot p i \<and> long_key_slot p j)"
  by (simp add: slice_invariant_def list_all_iff)

lemma slots_with_slice_bound:
  assumes inv: "slice_invariant p n"
  shows "length (slots_with_slice p n s) \<le> 10"
proof -
  let ?S = "{i. i < n \<and> slices p i = s}"
  let ?f = "\<lambda>i. min (unat (remaining_key_length p i)) 9"
  have len: "length (slots_with_slice p n s) = card ?S"
  proof -
    have "distinct (slots_with_slice p n s)"
      by (simp add: slots_with_slice_def)
    then have "length (slots_with_slice p n s) = card (set (slots_with_slice p n s))"
      by (simp add: distinct_card)
    also have "set (slots_with_slice p n s) = ?S"
      by (auto simp: slots_with_slice_def)
    finally show ?thesis .
  qed
  have inj: "inj_on ?f ?S"
  proof (rule inj_onI)
    fix i j assume i: "i \<in> ?S" and j: "j \<in> ?S" and eq: "?f i = ?f j"
    show "i = j"
    proof (rule ccontr)
      assume ne: "i \<noteq> j"
      with i j slice_invariantD [OF inv, of i j]
      have d: "remaining_key_length p i \<noteq> remaining_key_length p j"
        and l: "\<not> (long_key_slot p i \<and> long_key_slot p j)"
        by simp_all
      from d have "unat (remaining_key_length p i) \<noteq> unat (remaining_key_length p j)"
        by (simp add: word_unat_eq_iff)
      with l eq show False
        by (auto simp: long_key_slot_def sizeof_KeySlice_def min_def split: if_splits)
    qed
  qed
  have "?f ` ?S \<subseteq> {..9}"
    by auto
  then have "card (?f ` ?S) \<le> card {..9::nat}"
    by (intro card_mono) simp_all
  with inj have "card ?S \<le> 10"
    by (simp add: card_image)
  with len show ?thesis by simp
qed

lemma shared_slice_page_examined:
  "find_key_examined shared_slice_page (page_version shared_slice_page)
     0x6100000000000000 [] 8 = [0, 1, 2]"
  using shared_slice_page_fields
  by (simp add: find_key_examined_def find_key_body_def for_loop_rounds.simps page_consts)

lemma length_le_one:
  assumes "distinct xs" and "\<And>x y. x \<in> set xs \<Longrightarrow> y \<in> set xs \<Longrightarrow> x = y"
  shows "length xs \<le> 1"
proof (cases xs)
  case Nil
  then show ?thesis by simp
next
  case outer: (Cons a ys)
  show ?thesis
  proof (cases ys)
    case Nil
    with outer show ?thesis by simp
  next
    case (Cons b zs)
    with outer assms(2) [of a b] have "a = b" by simp
    with Cons outer assms(1) show ?thesis by simp
  qed
qed

lemma long_slots_bound:
  assumes inv: "slice_invariant p n"
  shows "length (filter (long_key_slot p) (slots_with_slice p n s)) \<le> 1"
proof (rule length_le_one)
  show "distinct (filter (long_key_slot p) (slots_with_slice p n s))"
    by (simp add: slots_with_slice_def)
next
  fix i j
  assume "i \<in> set (filter (long_key_slot p) (slots_with_slice p n s))"
    and "j \<in> set (filter (long_key_slot p) (slots_with_slice p n s))"
  then have h: "i < n" "j < n" "slices p i = slices p j" "long_key_slot p i" "long_key_slot p j"
    by (simp_all add: slots_with_slice_def)
  show "i = j"
  proof (rule ccontr)
    assume "i \<noteq> j"
    from slice_invariantD [OF inv h(1,2) this h(3)] h(4,5) show False by simp
  qed
qed

lemma slot_lengths_distinct:
  assumes inv: "slice_invariant p n"
  shows "distinct (map (remaining_key_length p) (slots_with_slice p n s))"
proof -
  have "inj_on (remaining_key_length p) (set (slots_with_slice p n s))"
  proof (rule inj_onI)
    fix i j
    assume "i \<in> set (slots_with_slice p n s)" and "j \<in> set (slots_with_slice p n s)"
      and eq: "remaining_key_length p i = remaining_key_length p j"
    then have h: "i < n" "j < n" "slices p i = slices p j"
      by (simp_all add: slots_with_slice_def)
    show "i = j"
    proof (rule ccontr)
      assume "i \<noteq> j"
      from slice_invariantD [OF inv h(1,2) this h(3)] eq show False by simp
    qed
  qed
  moreover have "distinct (slots_with_slice p n s)"
    by (simp add: slots_with_slice_def)
  ultimately show ?thesis by (simp add: distinct_map)
qed

lemma find_key_examined_bound:
  assumes inv: "slice_invariant p n" and sv: "get_key_count sv mod 256 \<le> n"
  shows "length (filter (\<lambda>i. slices p i = s) (find_key_examined p sv ks suffix remaining)) \<le> 10"
proof -
  from for_loop_rounds_prefix [of 0 "get_key_count sv mod 256" "find_key_body p ks suffix remaining"]
  obtain m where m: "m \<le> get_key_count sv mod 256"
      "find_key_examined p sv ks suffix remaining = [0..<m]"
    by (auto simp: find_key_examined_def)
  from m(1) sv have "m \<le> n" by simp
  from length_filter_upt_mono [OF this, of "\<lambda>i. slices p i = s"]
  have "length (filter (\<lambda>i. slices p i = s) [0..<m]) \<le> length (slots_with_slice p n s)"
    by (simp add: slots_with_slice_def)
  with slots_with_slice_bound [OF inv, of s] m(2) show ?thesis by simp
qed

lemma mixed_slice_page_slots:
  "slots_with_slice mixed_slice_page 4 0x6100000000000000 = [0, 1, 2, 3]"
  "long_key_slot mixed_slice_page 3"
  "\<not> long_slot_alone mixed_slice_page 4"
proof -
  have u: "[0..<4::nat] = [0, 1, 2, 3]"
    by (simp add: upt_rec)
  show "slots_with_slice mixed_slice_page 4 0x6100000000000000 = [0, 1, 2, 3]"
    unfolding slots_with_slice_def u using mixed_slice_page_fields by simp
  show "long_key_slot mixed_slice_page 3"
    using mixed_slice_page_fields by (simp add: long_key_slot_def page_consts)
  show "\<not> long_slot_alone mixed_slice_page 4"
    unfolding long_slot_alone_def u using mixed_slice_page_fields
    by (simp add: long_key_slot_def page_consts)
qed

text \<open>
  C2. The claim says that at most two slots of a border page have the same slice, and
  that a slot with a remaining length above 8 (the next-layer marker 255 included) is
  the only slot of its slice. The comment in \<open>find_key\<close> says that one slice is used for
  up to 10 keys: the lengths 0 to 8 and one long key or pointer to the next layer.
  On every border page that the operations build, among the first \<open>key_count\<close> slots
  at most ten have the same slice, at most one of them has a remaining length above
  8, no two of them have the same remaining length, and the loop of \<open>find_key\<close>
  examines at most ten slots of any one slice.
\<close>

theorem built_page_slots_per_slice:
  "border_page_built is_keylocked slice_check p \<Longrightarrow>
   length (slots_with_slice p (get_key_count (page_version p)) s) \<le> 10
   \<and> length (filter (long_key_slot p) (slots_with_slice p (get_key_count (page_version p)) s)) \<le> 1
   \<and> distinct (map (remaining_key_length p) (slots_with_slice p (get_key_count (page_version p)) s))
   \<and> length (filter (\<lambda>i. slices p i = s)
        (find_key_examined p (page_version p) ks suffix remaining)) \<le> 10"
proof -
  assume "border_page_built is_keylocked slice_check p"
  from built_invariant [OF this]
  have n: "get_key_count (page_version p) \<le> kMaxKeys"
    and inv: "slice_invariant p (get_key_count (page_version p))"
    by simp_all
  from n have "get_key_count (page_version p) mod 256 \<le> get_key_count (page_version p)"
    by simp
  from find_key_examined_bound [OF inv this]
  have d: "length (filter (\<lambda>i. slices p i = s)
      (find_key_examined p (page_version p) ks suffix remaining)) \<le> 10" .
  from slots_with_slice_bound [OF inv] long_slots_bound [OF inv] slot_lengths_distinct [OF inv] d
  show ?thesis by (simp only: simp_thms)
qed

theorem built_page_slots_per_slice_witness:
  "border_page_built every_key_locked within_fences mixed_slice_page
   \<and> length (slots_with_slice mixed_slice_page (get_key_count (page_version mixed_slice_page))
        0x6100000000000000) \<le> 10
   \<and> length (filter (long_key_slot mixed_slice_page)
        (slots_with_slice mixed_slice_page (get_key_count (page_version mixed_slice_page))
           0x6100000000000000)) \<le> 1
   \<and> distinct (map (remaining_key_length mixed_slice_page)
        (slots_with_slice mixed_slice_page (get_key_count (page_version mixed_slice_page))
           0x6100000000000000))
   \<and> length (filter (\<lambda>i. slices mixed_slice_page i = 0x6100000000000000)
        (find_key_examined mixed_slice_page (page_version mixed_slice_page)
           0x6100000000000000 [] 8)) \<le> 10"
  using built_page_slots_per_slice [of every_key_locked within_fences mixed_slice_page
      "0x6100000000000000" "0x6100000000000000" "[]" 8]
    mixed_slice_page_built [of every_key_locked]
  by (simp only: simp_thms)

text \<open>
  The keys \<^verbatim>\<open>"a"\<close>, \<^verbatim>\<open>"a\0"\<close>, \<^verbatim>\<open>"a\0\0\0\0\0\0\0"\<close> and \<^verbatim>\<open>"a\0\0\0\0\0\0\0x"\<close> give four slots with
  one slice, the last of them long; the search for the third key examines three
  slots of that slice.
\<close>

theorem four_slots_share_slice_counterexample:
  "border_page_built every_key_locked within_fences mixed_slice_page
   \<and> get_key_count (page_version mixed_slice_page) = 4
   \<and> slots_with_slice mixed_slice_page 4 0x6100000000000000 = [0, 1, 2, 3]
   \<and> \<not> length (slots_with_slice mixed_slice_page 4 0x6100000000000000) \<le> 2
   \<and> long_key_slot mixed_slice_page 3
   \<and> \<not> long_slot_alone mixed_slice_page 4
   \<and> find_key_examined shared_slice_page (page_version shared_slice_page)
        0x6100000000000000 [] 8 = [0, 1, 2]
   \<and> find_key shared_slice_page (page_version shared_slice_page) 0x6100000000000000 [] 8 = Inr 2"
proof -
  have "\<not> length (slots_with_slice mixed_slice_page 4 0x6100000000000000) \<le> 2"
    by (simp add: mixed_slice_page_slots(1))
  with mixed_slice_page_built [of every_key_locked] mixed_slice_page_fields(9)
    mixed_slice_page_slots shared_slice_page_examined shared_slice_page_search(1)
  show ?thesis by blast
qed

text \<open>
  The invariant rests on the scan that precedes a reservation: \<open>reserve_record_space\<close>
  itself stores a key that the page already holds.
\<close>

lemma duplicate_page_breaks_invariant:
  "reserve_record_space (begin_insert shared_slice_page1) 1 7 0x6100000000000000 [] 1 16
     = Inr duplicate_page
   \<and> slices duplicate_page 0 = slices duplicate_page 1
   \<and> remaining_key_length duplicate_page 0 = remaining_key_length duplicate_page 1
   \<and> \<not> slice_invariant duplicate_page 2"
proof -
  have "\<not> slice_invariant duplicate_page 2"
    using duplicate_page_fields by (simp add: slice_invariant_def upt_rec)
  moreover have "slices duplicate_page 0 = slices duplicate_page 1"
    "remaining_key_length duplicate_page 0 = remaining_key_length duplicate_page 1"
    using duplicate_page_fields by simp_all
  ultimately show ?thesis using duplicate_page_reserved by blast
qed

section \<open>Fences\<close>






section \<open>The storage interface\<close>

lemma lower_neighbour_None:
  "lower_neighbour recs key = None \<Longrightarrow> k \<in> fst ` set recs \<Longrightarrow> \<not> k < key"
proof -
  assume n: "lower_neighbour recs key = None" and k: "k \<in> fst ` set recs"
  from n have "filter (\<lambda>k. k < key) (map fst recs) = []"
    by (simp add: lower_neighbour_def split: list.splits)
  then have "\<forall>x \<in> set (map fst recs). \<not> x < key"
    by (simp add: filter_empty_conv)
  with k show "\<not> k < key" by auto
qed

lemma lower_neighbour_Some:
  assumes "lower_neighbour recs key = Some lo"
  shows "lo \<in> fst ` set recs \<and> lo < key \<and> (\<forall>k \<in> fst ` set recs. k < key \<longrightarrow> k \<le> lo)"
proof -
  from assms obtain x xs where f: "filter (\<lambda>k. k < key) (map fst recs) = x # xs"
    and lo: "lo = fold max xs x"
    by (auto simp: lower_neighbour_def split: list.splits)
  have m: "lo = Max (set (x # xs))"
    unfolding lo by (rule Max.set_eq_fold [symmetric])
  have s: "set (x # xs) = {k \<in> fst ` set recs. k < key}"
    unfolding f [symmetric] by auto
  have "lo \<in> set (x # xs)"
    unfolding m by (rule Max_in) simp_all
  moreover have "\<forall>k \<in> set (x # xs). k \<le> lo"
    unfolding m by (intro ballI Max_ge) simp_all
  ultimately show ?thesis
    unfolding s by blast
qed

lemma upper_neighbour_None:
  "upper_neighbour recs key = None \<Longrightarrow> k \<in> fst ` set recs \<Longrightarrow> \<not> key < k"
proof -
  assume n: "upper_neighbour recs key = None" and k: "k \<in> fst ` set recs"
  from n have "filter (\<lambda>k. key < k) (map fst recs) = []"
    by (simp add: upper_neighbour_def split: list.splits)
  then have "\<forall>x \<in> set (map fst recs). \<not> key < x"
    by (simp add: filter_empty_conv)
  with k show "\<not> key < k" by auto
qed

lemma upper_neighbour_Some:
  assumes "upper_neighbour recs key = Some hi"
  shows "hi \<in> fst ` set recs \<and> key < hi \<and> (\<forall>k \<in> fst ` set recs. key < k \<longrightarrow> hi \<le> k)"
proof -
  from assms obtain x xs where f: "filter (\<lambda>k. key < k) (map fst recs) = x # xs"
    and hi: "hi = fold min xs x"
    by (auto simp: upper_neighbour_def split: list.splits)
  have m: "hi = Min (set (x # xs))"
    unfolding hi by (rule Min.set_eq_fold [symmetric])
  have s: "set (x # xs) = {k \<in> fst ` set recs. key < k}"
    unfolding f [symmetric] by auto
  have "hi \<in> set (x # xs)"
    unfolding m by (rule Min_in) simp_all
  moreover have "\<forall>k \<in> set (x # xs). hi \<le> k"
    unfolding m by (intro ballI Min_le) simp_all
  ultimately show ?thesis
    unfolding s by blast
qed

lemma gap_has_no_key:
  assumes absent: "map_of recs key = None" and k: "k \<in> fst ` set recs"
  shows "(\<exists>l. lower_neighbour recs key = Some l \<and> k \<le> l)
       \<or> (\<exists>h. upper_neighbour recs key = Some h \<and> h \<le> k)"
proof -
  from absent k have ne: "k \<noteq> key"
    by (auto simp: map_of_eq_None_iff)
  show ?thesis
  proof (cases "k < key")
    case True
    with lower_neighbour_None [of recs key k] k
    obtain l where l: "lower_neighbour recs key = Some l" by (cases "lower_neighbour recs key") auto
    from lower_neighbour_Some [OF l] k True have "k \<le> l" by blast
    with l show ?thesis by blast
  next
    case False
    with ne have gt: "key < k" by simp
    with upper_neighbour_None [of recs key k] k
    obtain h where h: "upper_neighbour recs key = Some h" by (cases "upper_neighbour recs key") auto
    from upper_neighbour_Some [OF h] k gt have "h \<le> k" by blast
    with h show ?thesis by blast
  qed
qed

lemma example_records_lookup:
  "map_of example_records 10 = Some [1, 2, 3]" "map_of example_records 25 = None"
  "(2::nat) < length [1, 2, 3 :: 8 word]" "length [1, 2, 3 :: 8 word] \<le> (5::nat)"
  by (simp_all add: example_records_def)

lemma example_records_miss:
  "storage_get_record example_records [] 25 5
     = (kErrorCodeStrKeyNotFound, None, 5, [RangeLock (Some 20) (Some 30)])"
  by (simp add: storage_get_record_def example_records_def lower_neighbour_def
      upper_neighbour_def)

text \<open>
  C6. For a key that is present with a payload longer than the caller's capacity,
  \<open>storage_get_record\<close> returns \<^verbatim>\<open>kErrorCodeStrTooSmallPayloadBuffer\<close> and the required
  length; with enough capacity it returns the payload and its length; for an absent
  key it returns \<^verbatim>\<open>kErrorCodeStrKeyNotFound\<close> and adds one range-lock entry whose
  bounds are keys of the index (or the extremes), lie strictly below and above the
  key, and have no key of the index between them.
\<close>

theorem storage_get_record_results:
  "(map_of recs key = Some payload \<and> capacity < length payload \<longrightarrow>
      storage_get_record recs rls key capacity
        = (kErrorCodeStrTooSmallPayloadBuffer, None, length payload, rls))
   \<and> (map_of recs key = Some payload \<and> length payload \<le> capacity \<longrightarrow>
      storage_get_record recs rls key capacity = (kErrorCodeOk, Some payload, length payload, rls))
   \<and> (map_of recs key = None \<longrightarrow>
      (\<exists>lo hi. storage_get_record recs rls key capacity
           = (kErrorCodeStrKeyNotFound, None, capacity, rls @ [RangeLock lo hi])
         \<and> (\<forall>k. lo = Some k \<longrightarrow> k \<in> fst ` set recs \<and> k < key)
         \<and> (\<forall>k. hi = Some k \<longrightarrow> k \<in> fst ` set recs \<and> key < k)
         \<and> (\<forall>k. k \<in> fst ` set recs \<longrightarrow>
               (\<exists>l. lo = Some l \<and> k \<le> l) \<or> (\<exists>h. hi = Some h \<and> h \<le> k))))"
proof -
  have a: "map_of recs key = Some payload \<and> capacity < length payload \<longrightarrow>
      storage_get_record recs rls key capacity
        = (kErrorCodeStrTooSmallPayloadBuffer, None, length payload, rls)"
    by (simp add: storage_get_record_def)
  have b: "map_of recs key = Some payload \<and> length payload \<le> capacity \<longrightarrow>
      storage_get_record recs rls key capacity = (kErrorCodeOk, Some payload, length payload, rls)"
    by (simp add: storage_get_record_def)
  have c: "map_of recs key = None \<longrightarrow>
      (\<exists>lo hi. storage_get_record recs rls key capacity
           = (kErrorCodeStrKeyNotFound, None, capacity, rls @ [RangeLock lo hi])
         \<and> (\<forall>k. lo = Some k \<longrightarrow> k \<in> fst ` set recs \<and> k < key)
         \<and> (\<forall>k. hi = Some k \<longrightarrow> k \<in> fst ` set recs \<and> key < k)
         \<and> (\<forall>k. k \<in> fst ` set recs \<longrightarrow>
               (\<exists>l. lo = Some l \<and> k \<le> l) \<or> (\<exists>h. hi = Some h \<and> h \<le> k)))"
  proof
    assume absent: "map_of recs key = None"
    have r: "storage_get_record recs rls key capacity
        = (kErrorCodeStrKeyNotFound, None, capacity,
           rls @ [RangeLock (lower_neighbour recs key) (upper_neighbour recs key)])"
      using absent by (simp add: storage_get_record_def)
    have lo: "\<forall>k. lower_neighbour recs key = Some k \<longrightarrow> k \<in> fst ` set recs \<and> k < key"
      using lower_neighbour_Some [of recs key] by blast
    have hi: "\<forall>k. upper_neighbour recs key = Some k \<longrightarrow> k \<in> fst ` set recs \<and> key < k"
      using upper_neighbour_Some [of recs key] by blast
    have gap: "\<forall>k. k \<in> fst ` set recs \<longrightarrow>
        (\<exists>l. lower_neighbour recs key = Some l \<and> k \<le> l)
        \<or> (\<exists>h. upper_neighbour recs key = Some h \<and> h \<le> k)"
      using gap_has_no_key [OF absent] by blast
    from r lo hi gap show "\<exists>lo hi. storage_get_record recs rls key capacity
           = (kErrorCodeStrKeyNotFound, None, capacity, rls @ [RangeLock lo hi])
         \<and> (\<forall>k. lo = Some k \<longrightarrow> k \<in> fst ` set recs \<and> k < key)
         \<and> (\<forall>k. hi = Some k \<longrightarrow> k \<in> fst ` set recs \<and> key < k)
         \<and> (\<forall>k. k \<in> fst ` set recs \<longrightarrow>
               (\<exists>l. lo = Some l \<and> k \<le> l) \<or> (\<exists>h. hi = Some h \<and> h \<le> k))"
      by blast
  qed
  from a b c show ?thesis by blast
qed

theorem storage_get_record_results_witness:
  "map_of example_records 10 = Some [1, 2, 3] \<and> (2::nat) < length [1, 2, 3 :: 8 word]
   \<and> storage_get_record example_records [] 10 2
       = (kErrorCodeStrTooSmallPayloadBuffer, None, 3, [])
   \<and> length [1, 2, 3 :: 8 word] \<le> (5::nat)
   \<and> storage_get_record example_records [] 10 5 = (kErrorCodeOk, Some [1, 2, 3], 3, [])
   \<and> map_of example_records 25 = None
   \<and> storage_get_record example_records [] 25 5
       = (kErrorCodeStrKeyNotFound, None, 5, [RangeLock (Some 20) (Some 30)])"
proof -
  from storage_get_record_results [of example_records 10 "[1, 2, 3]" 2 "[]"]
    example_records_lookup(1,3)
  have a: "storage_get_record example_records [] 10 2
       = (kErrorCodeStrTooSmallPayloadBuffer, None, length [1, 2, 3 :: 8 word], [])"
    by blast
  from storage_get_record_results [of example_records 10 "[1, 2, 3]" 5 "[]"]
    example_records_lookup(1,4)
  have b: "storage_get_record example_records [] 10 5
       = (kErrorCodeOk, Some [1, 2, 3], length [1, 2, 3 :: 8 word], [])"
    by blast
  from a b example_records_lookup example_records_miss show ?thesis
    by simp
qed

end
